theory Spec2Isabelle
  imports Main "HOL-Library.Word" "HOL-Library.Sublist"
begin

section \<open>Serial frame acquisition: DMA receive buffer, idle-line event, confirmation timer\<close>

text \<open>
  The firmware receives variable-length frames on three serial links.  Each link owns a
  receive array, a 16-bit length variable and an 8-bit completion flag (file
  \<^verbatim>\<open>BSP/USART/usart.c\<close>), is fed by one channel of the DMA controller in circular
  mode, and is finalised by the update interrupt of a single-pulse timer (file
  \<^verbatim>\<open>BSP/TIMER/timer.c\<close>).  The three links are written out three times in the
  source; the embedding keeps the three copies.
\<close>

type_synonym u8 = "8 word"
type_synonym u16 = "16 word"
type_synonym u32 = "32 word"

subsection \<open>Constants of \<^verbatim>\<open>usart.h\<close>\<close>

definition BSP_USART_RECEIVE_LENGTH :: nat where
  "BSP_USART_RECEIVE_LENGTH = 1024"

definition USART_TERMINAL_RECEIVE_LENGTH :: nat where
  "USART_TERMINAL_RECEIVE_LENGTH = 1024"

definition UART4_RECEIVE_LENGTH :: nat where
  "UART4_RECEIVE_LENGTH = 1024"

subsection \<open>Peripherals\<close>

text \<open>
  The vendor peripheral library (\<^verbatim>\<open>gd32h7xx_libopt.h\<close>) is not among the sources.  Its
  registers are represented by the records below, holding exactly what the handlers read
  and write: for a DMA channel the enable bit, the remaining-transfer counter, the
  programmed transfer number, the memory base, the circular-mode bit, the position of the
  next write and the channel's flags; for a timer the enable bit, the counter, the
  auto-reload value, the single-pulse bit and the interrupt flags.
\<close>

datatype dma_periph = DMA0 | DMA1

datatype dma_channel_enum =
  DMA_CH0 | DMA_CH1 | DMA_CH2 | DMA_CH3 | DMA_CH4 | DMA_CH5 | DMA_CH6 | DMA_CH7

datatype dma_flag = DMA_FLAG_FEE | DMA_FLAG_SDE | DMA_FLAG_TAE | DMA_FLAG_HTF | DMA_FLAG_FTF

datatype timer_periph = TIMER5 | TIMER6 | TIMER15 | TIMER16

datatype timer_int_flag = TIMER_INT_FLAG_UP

datatype usart_periph = USART0 | USART1 | UART4

datatype usart_int_flag = USART_INT_FLAG_IDLE | USART_INT_FLAG_RFNE

text \<open>The three receive arrays, as the memory base a DMA channel can be given.\<close>

datatype recv_array = BSP_USART_RECV_BUFF | USART_TERMINAL_RECV_BUFF | UART4_RECV_BUFF

record dma_channel =
  ch_en :: bool
  ch_cnt :: u32
  ch_number :: u32
  ch_memory0 :: "recv_array option"
  ch_circular :: bool
  ch_offset :: nat
  ch_flags :: "dma_flag set"

record timer_regs =
  tm_en :: bool
  tm_cnt :: u32
  tm_car :: u32
  tm_single_pulse :: bool
  tm_flags :: "timer_int_flag set"

subsection \<open>Program state\<close>

text \<open>
  The global variables of \<^verbatim>\<open>usart.c\<close> under their own names, and the peripherals the
  subsystem touches.
\<close>

record state =
  g_bsp_usart_recv_buff :: "u8 list"
  g_bsp_usart_recv_length :: u16
  g_bsp_usart_recv_complete_flag :: u8
  g_usart_terminal_recv_buff :: "u8 list"
  g_usart_terminal_recv_length :: u16
  g_usart_terminal_recv_complete_flag :: u8
  g_uart4_recv_buff :: "u8 list"
  g_uart4_recv_length :: u16
  g_uart4_recv_complete_flag :: u8
  dma_regs :: "dma_periph \<times> dma_channel_enum \<Rightarrow> dma_channel"
  timer_periphs :: "timer_periph \<Rightarrow> timer_regs"
  usart_flags :: "usart_periph \<Rightarrow> usart_int_flag set"

subsection \<open>Peripheral library calls used by the handlers\<close>

text \<open>
  Modelled from the spec: the vendor library functions are missing from the sources.
  The spec gives the transport the narrow interface \<open>remaining_count\<close>,
  \<open>transfer_complete_flag\<close>, \<open>enable\<close>/\<open>disable\<close> and \<open>reconfigure(length)\<close>, and the
  timer the interface "reset the elapsed counter to zero and enable counting".  Each call
  below is the register access of that name.  The transfer counter accepts a new value
  only while the channel is disabled; enabling a channel restarts its writes at the
  memory base.
\<close>

definition dma_channel_disable :: "dma_periph \<Rightarrow> dma_channel_enum \<Rightarrow> state \<Rightarrow> state" where
  "dma_channel_disable p ch s =
     s\<lparr>dma_regs := (dma_regs s)((p, ch) := (dma_regs s (p, ch))\<lparr>ch_en := False\<rparr>)\<rparr>"

definition dma_channel_enable :: "dma_periph \<Rightarrow> dma_channel_enum \<Rightarrow> state \<Rightarrow> state" where
  "dma_channel_enable p ch s =
     (if ch_en (dma_regs s (p, ch)) then s
      else s\<lparr>dma_regs := (dma_regs s)((p, ch) := (dma_regs s (p, ch))\<lparr>ch_en := True, ch_offset := 0\<rparr>)\<rparr>)"

definition dma_transfer_number_config :: "dma_periph \<Rightarrow> dma_channel_enum \<Rightarrow> u32 \<Rightarrow> state \<Rightarrow> state" where
  "dma_transfer_number_config p ch n s =
     (if ch_en (dma_regs s (p, ch)) then s
      else s\<lparr>dma_regs := (dma_regs s)((p, ch) := (dma_regs s (p, ch))\<lparr>ch_cnt := n, ch_number := n\<rparr>)\<rparr>)"

definition dma_transfer_number_get :: "dma_periph \<Rightarrow> dma_channel_enum \<Rightarrow> state \<Rightarrow> u32" where
  "dma_transfer_number_get p ch s = ch_cnt (dma_regs s (p, ch))"

definition dma_flag_get :: "dma_periph \<Rightarrow> dma_channel_enum \<Rightarrow> dma_flag \<Rightarrow> state \<Rightarrow> bool" where
  "dma_flag_get p ch f s = (f \<in> ch_flags (dma_regs s (p, ch)))"

text \<open>
  \<^verbatim>\<open>DMA_INTC0(p) |= DMA_FLAG_ADD(DMA_CHINTF_RESET_VALUE, n)\<close> clears every flag of
  channel \<open>n\<close> of the lower register (channels 0 to 3), and the same write to
  \<^verbatim>\<open>DMA_INTC1\<close> clears every flag of channel \<open>n + 4\<close>.
\<close>

fun dma_channel_index :: "dma_channel_enum \<Rightarrow> nat" where
  "dma_channel_index DMA_CH0 = 0"
| "dma_channel_index DMA_CH1 = 1"
| "dma_channel_index DMA_CH2 = 2"
| "dma_channel_index DMA_CH3 = 3"
| "dma_channel_index DMA_CH4 = 4"
| "dma_channel_index DMA_CH5 = 5"
| "dma_channel_index DMA_CH6 = 6"
| "dma_channel_index DMA_CH7 = 7"

definition dma_flags_reset :: "dma_periph \<Rightarrow> nat \<Rightarrow> state \<Rightarrow> state" where
  "dma_flags_reset p n s =
     s\<lparr>dma_regs := (\<lambda>(q, ch). if q = p \<and> dma_channel_index ch = n
                                then (dma_regs s (q, ch))\<lparr>ch_flags := {}\<rparr>
                                else dma_regs s (q, ch))\<rparr>"

definition DMA_INTC0_reset :: "dma_periph \<Rightarrow> nat \<Rightarrow> state \<Rightarrow> state" where
  "DMA_INTC0_reset p n s = (if n < 4 then dma_flags_reset p n s else s)"

definition DMA_INTC1_reset :: "dma_periph \<Rightarrow> nat \<Rightarrow> state \<Rightarrow> state" where
  "DMA_INTC1_reset p n s = (if n < 4 then dma_flags_reset p (n + 4) s else s)"

definition timer_counter_value_config :: "timer_periph \<Rightarrow> u32 \<Rightarrow> state \<Rightarrow> state" where
  "timer_counter_value_config t v s =
     s\<lparr>timer_periphs := (timer_periphs s)(t := (timer_periphs s t)\<lparr>tm_cnt := v\<rparr>)\<rparr>"

definition timer_enable :: "timer_periph \<Rightarrow> state \<Rightarrow> state" where
  "timer_enable t s =
     s\<lparr>timer_periphs := (timer_periphs s)(t := (timer_periphs s t)\<lparr>tm_en := True\<rparr>)\<rparr>"

definition timer_disable :: "timer_periph \<Rightarrow> state \<Rightarrow> state" where
  "timer_disable t s =
     s\<lparr>timer_periphs := (timer_periphs s)(t := (timer_periphs s t)\<lparr>tm_en := False\<rparr>)\<rparr>"

definition timer_interrupt_flag_get :: "timer_periph \<Rightarrow> timer_int_flag \<Rightarrow> state \<Rightarrow> bool" where
  "timer_interrupt_flag_get t f s = (f \<in> tm_flags (timer_periphs s t))"

definition timer_interrupt_flag_clear :: "timer_periph \<Rightarrow> timer_int_flag \<Rightarrow> state \<Rightarrow> state" where
  "timer_interrupt_flag_clear t f s =
     s\<lparr>timer_periphs := (timer_periphs s)(t := (timer_periphs s t)\<lparr>tm_flags := tm_flags (timer_periphs s t) - {f}\<rparr>)\<rparr>"

definition usart_interrupt_flag_get :: "usart_periph \<Rightarrow> usart_int_flag \<Rightarrow> state \<Rightarrow> bool" where
  "usart_interrupt_flag_get u f s = (f \<in> usart_flags s u)"

definition usart_interrupt_flag_clear :: "usart_periph \<Rightarrow> usart_int_flag \<Rightarrow> state \<Rightarrow> state" where
  "usart_interrupt_flag_clear u f s =
     s\<lparr>usart_flags := (usart_flags s)(u := usart_flags s u - {f})\<rparr>"

text \<open>
  A write through an index into one of the receive arrays.  An index outside the array is
  undefined behaviour in C; the model returns \<open>None\<close> there.
\<close>

definition array_store :: "u8 list \<Rightarrow> nat \<Rightarrow> u8 \<Rightarrow> u8 list option" where
  "array_store a i v = (if i < length a then Some (a[i := v]) else None)"

definition recv_array_store :: "recv_array \<Rightarrow> nat \<Rightarrow> u8 \<Rightarrow> state \<Rightarrow> state option" where
  "recv_array_store r i v s =
     (case r of
        BSP_USART_RECV_BUFF \<Rightarrow>
          map_option (\<lambda>a. s\<lparr>g_bsp_usart_recv_buff := a\<rparr>) (array_store (g_bsp_usart_recv_buff s) i v)
      | USART_TERMINAL_RECV_BUFF \<Rightarrow>
          map_option (\<lambda>a. s\<lparr>g_usart_terminal_recv_buff := a\<rparr>) (array_store (g_usart_terminal_recv_buff s) i v)
      | UART4_RECV_BUFF \<Rightarrow>
          map_option (\<lambda>a. s\<lparr>g_uart4_recv_buff := a\<rparr>) (array_store (g_uart4_recv_buff s) i v))"

subsection \<open>Initialisation (\<^verbatim>\<open>usart.c\<close>, \<^verbatim>\<open>timer.c\<close>)\<close>

text \<open>
  Of the initialisation only the receive channel, the idle flag and the timer matter here;
  clocks, pins, baud rate and the transmit channels are left out.

  Modelled from the spec: the vendor calls \<open>dma_deinit\<close>, \<open>dma_single_data_mode_init\<close>,
  \<open>timer_deinit\<close>, \<open>timer_init\<close> and \<open>timer_single_pulse_mode_config\<close> are missing
  from the sources.  They put a channel or a timer into its reset state and store the
  fields of the parameter structure: the link configuration of the spec, capacity C,
  circular transport, single-shot timer with interval T.
\<close>

record dma_single_data_parameter_struct =
  memory0_addr :: recv_array
  number :: u32
  circular_mode :: bool

definition dma_deinit :: "dma_periph \<Rightarrow> dma_channel_enum \<Rightarrow> state \<Rightarrow> state" where
  "dma_deinit p ch s =
     s\<lparr>dma_regs := (dma_regs s)((p, ch) :=
          \<lparr>ch_en = False, ch_cnt = 0, ch_number = 0, ch_memory0 = None,
           ch_circular = False, ch_offset = 0, ch_flags = {}\<rparr>)\<rparr>"

definition dma_single_data_mode_init ::
  "dma_periph \<Rightarrow> dma_channel_enum \<Rightarrow> dma_single_data_parameter_struct \<Rightarrow> state \<Rightarrow> state" where
  "dma_single_data_mode_init p ch ini s =
     s\<lparr>dma_regs := (dma_regs s)((p, ch) := (dma_regs s (p, ch))
          \<lparr>ch_cnt := number ini, ch_number := number ini,
           ch_memory0 := Some (memory0_addr ini), ch_circular := circular_mode ini\<rparr>)\<rparr>"

definition usart_rx_dma_config :: "state \<Rightarrow> state" where
  "usart_rx_dma_config s =
     (let s1 = dma_deinit DMA0 DMA_CH0 s;
          dma_init_struct = \<lparr>memory0_addr = BSP_USART_RECV_BUFF,
                             number = of_nat BSP_USART_RECEIVE_LENGTH,
                             circular_mode = True\<rparr>;
          s2 = dma_single_data_mode_init DMA0 DMA_CH0 dma_init_struct s1
      in dma_channel_enable DMA0 DMA_CH0 s2)"

definition usart_terminal_rx_dma_config :: "state \<Rightarrow> state" where
  "usart_terminal_rx_dma_config s =
     (let s1 = dma_deinit DMA0 DMA_CH2 s;
          dma_init_struct = \<lparr>memory0_addr = USART_TERMINAL_RECV_BUFF,
                             number = of_nat USART_TERMINAL_RECEIVE_LENGTH,
                             circular_mode = True\<rparr>;
          s2 = dma_single_data_mode_init DMA0 DMA_CH2 dma_init_struct s1
      in dma_channel_enable DMA0 DMA_CH2 s2)"

definition uart4_rx_dma_config :: "state \<Rightarrow> state" where
  "uart4_rx_dma_config s =
     (let s1 = dma_deinit DMA0 DMA_CH4 s;
          dma_init_struct = \<lparr>memory0_addr = UART4_RECV_BUFF,
                             number = of_nat UART4_RECEIVE_LENGTH,
                             circular_mode = True\<rparr>;
          s2 = dma_single_data_mode_init DMA0 DMA_CH4 dma_init_struct s1
      in dma_channel_enable DMA0 DMA_CH4 s2)"

definition timer_deinit :: "timer_periph \<Rightarrow> state \<Rightarrow> state" where
  "timer_deinit t s =
     s\<lparr>timer_periphs := (timer_periphs s)(t :=
          \<lparr>tm_en = False, tm_cnt = 0, tm_car = - 1, tm_single_pulse = False, tm_flags = {}\<rparr>)\<rparr>"

definition timer_init :: "timer_periph \<Rightarrow> u32 \<Rightarrow> state \<Rightarrow> state" where
  "timer_init t period s =
     s\<lparr>timer_periphs := (timer_periphs s)(t := (timer_periphs s t)\<lparr>tm_car := period\<rparr>)\<rparr>"

definition timer_single_pulse_mode_config :: "timer_periph \<Rightarrow> bool \<Rightarrow> state \<Rightarrow> state" where
  "timer_single_pulse_mode_config t m s =
     s\<lparr>timer_periphs := (timer_periphs s)(t := (timer_periphs s t)\<lparr>tm_single_pulse := m\<rparr>)\<rparr>"

definition timer_base5_config :: "u16 \<Rightarrow> u32 \<Rightarrow> state \<Rightarrow> state" where
  "timer_base5_config psc period s =
     (let s1 = timer_deinit TIMER5 s;
          s2 = timer_init TIMER5 (period - 1) s1;
          s3 = timer_single_pulse_mode_config TIMER5 True s2
      in timer_interrupt_flag_clear TIMER5 TIMER_INT_FLAG_UP s3)"

definition timer_base6_config :: "u16 \<Rightarrow> u32 \<Rightarrow> state \<Rightarrow> state" where
  "timer_base6_config psc period s =
     (let s1 = timer_deinit TIMER6 s;
          s2 = timer_init TIMER6 (period - 1) s1;
          s3 = timer_single_pulse_mode_config TIMER6 True s2
      in timer_interrupt_flag_clear TIMER6 TIMER_INT_FLAG_UP s3)"

definition timer_general15_config :: "u16 \<Rightarrow> u16 \<Rightarrow> state \<Rightarrow> state" where
  "timer_general15_config psc period s =
     (let s1 = timer_deinit TIMER15 s;
          s2 = timer_init TIMER15 (ucast (period - 1)) s1;
          s3 = timer_single_pulse_mode_config TIMER15 True s2
      in timer_interrupt_flag_clear TIMER15 TIMER_INT_FLAG_UP s3)"

definition usart_init :: "u32 \<Rightarrow> state \<Rightarrow> state" where
  "usart_init baud_rate s =
     (let s1 = usart_rx_dma_config s;
          s2 = usart_interrupt_flag_clear USART0 USART_INT_FLAG_IDLE s1;
          s3 = timer_base5_config 300 1000 s2
      in timer_disable TIMER5 s3)"

definition usart_terminal_init :: "u32 \<Rightarrow> state \<Rightarrow> state" where
  "usart_terminal_init baud_rate s =
     (let s1 = usart_terminal_rx_dma_config s;
          s2 = usart_interrupt_flag_clear USART1 USART_INT_FLAG_IDLE s1;
          s3 = timer_base6_config 300 1000 s2
      in timer_disable TIMER6 s3)"

definition uart4_init :: "u32 \<Rightarrow> state \<Rightarrow> state" where
  "uart4_init baud_rate s =
     (let s1 = uart4_rx_dma_config s;
          s2 = usart_interrupt_flag_clear UART4 USART_INT_FLAG_IDLE s1;
          s3 = timer_general15_config 300 1000 s2
      in timer_disable TIMER15 s3)"

text \<open>
  The state at reset: the C globals are zero, each array has one byte more than its
  receive length, the peripherals are in their reset state.
\<close>

definition reset_state :: state where
  "reset_state =
     \<lparr>g_bsp_usart_recv_buff = replicate (BSP_USART_RECEIVE_LENGTH + 1) 0,
      g_bsp_usart_recv_length = 0,
      g_bsp_usart_recv_complete_flag = 0,
      g_usart_terminal_recv_buff = replicate (USART_TERMINAL_RECEIVE_LENGTH + 1) 0,
      g_usart_terminal_recv_length = 0,
      g_usart_terminal_recv_complete_flag = 0,
      g_uart4_recv_buff = replicate (UART4_RECEIVE_LENGTH + 1) 0,
      g_uart4_recv_length = 0,
      g_uart4_recv_complete_flag = 0,
      dma_regs = (\<lambda>_. \<lparr>ch_en = False, ch_cnt = 0, ch_number = 0, ch_memory0 = None,
                         ch_circular = False, ch_offset = 0, ch_flags = {}\<rparr>),
      timer_periphs = (\<lambda>_. \<lparr>tm_en = False, tm_cnt = 0, tm_car = - 1,
                              tm_single_pulse = False, tm_flags = {}\<rparr>),
      usart_flags = (\<lambda>_. {})\<rparr>"

text \<open>
  \<^verbatim>\<open>main\<close> calls \<^verbatim>\<open>usart_init(921600)\<close> only.  The state below has all three links
  initialised, each by its own function, as a firmware using the terminal and the module
  link does; the baud rate has no part in the model.
\<close>

definition initial_state :: state where
  "initial_state = uart4_init 115200 (usart_terminal_init 115200 (usart_init 921600 reset_state))"

subsection \<open>Re-arm (\<^verbatim>\<open>usart.c\<close>)\<close>

definition usart_rx_dma_receive_reset :: "state \<Rightarrow> state" where
  "usart_rx_dma_receive_reset s =
     (let s1 = dma_channel_disable DMA0 DMA_CH0 s;
          s2 = s1\<lparr>g_bsp_usart_recv_length := 0\<rparr>;
          s3 = s2\<lparr>g_bsp_usart_recv_complete_flag := 0\<rparr>;
          s4 = DMA_INTC0_reset DMA0 (dma_channel_index DMA_CH0) s3;
          s5 = dma_transfer_number_config DMA0 DMA_CH0 (of_nat BSP_USART_RECEIVE_LENGTH) s4
      in dma_channel_enable DMA0 DMA_CH0 s5)"

definition usart_terminal_rx_dma_receive_reset :: "state \<Rightarrow> state" where
  "usart_terminal_rx_dma_receive_reset s =
     (let s1 = dma_channel_disable DMA0 DMA_CH2 s;
          s2 = s1\<lparr>g_usart_terminal_recv_length := 0\<rparr>;
          s3 = s2\<lparr>g_usart_terminal_recv_complete_flag := 0\<rparr>;
          s4 = DMA_INTC0_reset DMA0 (dma_channel_index DMA_CH2) s3;
          s5 = dma_transfer_number_config DMA0 DMA_CH2 (of_nat USART_TERMINAL_RECEIVE_LENGTH) s4
      in dma_channel_enable DMA0 DMA_CH2 s5)"

definition uart4_rx_dma_receive_reset :: "state \<Rightarrow> state" where
  "uart4_rx_dma_receive_reset s =
     (let s1 = dma_channel_disable DMA0 DMA_CH4 s;
          s2 = s1\<lparr>g_uart4_recv_length := 0\<rparr>;
          s3 = s2\<lparr>g_uart4_recv_complete_flag := 0\<rparr>;
          s4 = DMA_INTC1_reset DMA0 (dma_channel_index DMA_CH4 - 4) s3;
          s5 = dma_transfer_number_config DMA0 DMA_CH4 (of_nat UART4_RECEIVE_LENGTH) s4
      in dma_channel_enable DMA0 DMA_CH4 s5)"

subsection \<open>Idle-line interrupt handlers (\<^verbatim>\<open>usart.c\<close>)\<close>

text \<open>
  \<^verbatim>\<open>BSP_USART_SUPPORT_DMA\<close> is 1, so the DMA branch of the first handler is the one
  compiled.  The subtraction is done in 32 bits and stored into the 16-bit variable.
\<close>

definition BSP_USART_IRQHandler :: "state \<Rightarrow> state" where
  "BSP_USART_IRQHandler s =
     (if usart_interrupt_flag_get USART0 USART_INT_FLAG_IDLE s then
        (let s1 = usart_interrupt_flag_clear USART0 USART_INT_FLAG_IDLE s;
             s2 = s1\<lparr>g_bsp_usart_recv_length :=
                       ucast (of_nat BSP_USART_RECEIVE_LENGTH - dma_transfer_number_get DMA0 DMA_CH0 s1)\<rparr>
         in if g_bsp_usart_recv_length s2 = 0 \<and> \<not> dma_flag_get DMA0 DMA_CH0 DMA_FLAG_FTF s2
            then s2
            else timer_enable TIMER5 (timer_counter_value_config TIMER5 0 s2))
      else s)"

definition USART1_IRQHandler :: "state \<Rightarrow> state" where
  "USART1_IRQHandler s =
     (if usart_interrupt_flag_get USART1 USART_INT_FLAG_IDLE s then
        (let s1 = usart_interrupt_flag_clear USART1 USART_INT_FLAG_IDLE s;
             s2 = s1\<lparr>g_usart_terminal_recv_length :=
                       ucast (of_nat USART_TERMINAL_RECEIVE_LENGTH - dma_transfer_number_get DMA0 DMA_CH2 s1)\<rparr>
         in if g_usart_terminal_recv_length s2 = 0 \<and> \<not> dma_flag_get DMA0 DMA_CH2 DMA_FLAG_FTF s2
            then s2
            else timer_enable TIMER6 (timer_counter_value_config TIMER6 0 s2))
      else s)"

definition UART4_IRQHandler :: "state \<Rightarrow> state" where
  "UART4_IRQHandler s =
     (if usart_interrupt_flag_get UART4 USART_INT_FLAG_IDLE s then
        (let s1 = usart_interrupt_flag_clear UART4 USART_INT_FLAG_IDLE s;
             s2 = s1\<lparr>g_uart4_recv_length :=
                       ucast (of_nat UART4_RECEIVE_LENGTH - dma_transfer_number_get DMA0 DMA_CH4 s1)\<rparr>
         in if g_uart4_recv_length s2 = 0 \<and> \<not> dma_flag_get DMA0 DMA_CH4 DMA_FLAG_FTF s2
            then s2
            else timer_enable TIMER15 (timer_counter_value_config TIMER15 0 s2))
      else s)"

subsection \<open>Timer interrupt handlers (\<^verbatim>\<open>timer.c\<close>)\<close>

text \<open>
  The comparison promotes the 16-bit length to 32 bits.  Both branches of the inner
  conditional store the terminator at index \<open>recv_length\<close>; the handler is \<open>None\<close>
  when that index is outside the array.
\<close>

definition TIMER5_DAC_UDR_IRQHandler :: "state \<Rightarrow> state option" where
  "TIMER5_DAC_UDR_IRQHandler s =
     (if timer_interrupt_flag_get TIMER5 TIMER_INT_FLAG_UP s then
        (let s1 = timer_interrupt_flag_clear TIMER5 TIMER_INT_FLAG_UP s
         in if ucast (g_bsp_usart_recv_length s1) =
               of_nat BSP_USART_RECEIVE_LENGTH - dma_transfer_number_get DMA0 DMA_CH0 s1
            then map_option (\<lambda>s3. s3\<lparr>g_bsp_usart_recv_complete_flag := 1\<rparr>)
                   (if g_bsp_usart_recv_length s1 = 0
                    then (let s2 = s1\<lparr>g_bsp_usart_recv_length := of_nat BSP_USART_RECEIVE_LENGTH\<rparr>
                          in recv_array_store BSP_USART_RECV_BUFF (unat (g_bsp_usart_recv_length s2)) 0 s2)
                    else recv_array_store BSP_USART_RECV_BUFF (unat (g_bsp_usart_recv_length s1)) 0 s1)
            else Some s1)
      else Some s)"

definition TIMER6_IRQHandler :: "state \<Rightarrow> state option" where
  "TIMER6_IRQHandler s =
     (if timer_interrupt_flag_get TIMER6 TIMER_INT_FLAG_UP s then
        (let s1 = timer_interrupt_flag_clear TIMER6 TIMER_INT_FLAG_UP s
         in if ucast (g_usart_terminal_recv_length s1) =
               of_nat USART_TERMINAL_RECEIVE_LENGTH - dma_transfer_number_get DMA0 DMA_CH2 s1
            then map_option (\<lambda>s3. s3\<lparr>g_usart_terminal_recv_complete_flag := 1\<rparr>)
                   (if g_usart_terminal_recv_length s1 = 0
                    then (let s2 = s1\<lparr>g_usart_terminal_recv_length := of_nat USART_TERMINAL_RECEIVE_LENGTH\<rparr>
                          in recv_array_store USART_TERMINAL_RECV_BUFF (unat (g_usart_terminal_recv_length s2)) 0 s2)
                    else recv_array_store USART_TERMINAL_RECV_BUFF (unat (g_usart_terminal_recv_length s1)) 0 s1)
            else Some s1)
      else Some s)"

definition TIMER15_IRQHandler :: "state \<Rightarrow> state option" where
  "TIMER15_IRQHandler s =
     (if timer_interrupt_flag_get TIMER15 TIMER_INT_FLAG_UP s then
        (let s1 = timer_interrupt_flag_clear TIMER15 TIMER_INT_FLAG_UP s
         in if ucast (g_uart4_recv_length s1) =
               of_nat UART4_RECEIVE_LENGTH - dma_transfer_number_get DMA0 DMA_CH4 s1
            then map_option (\<lambda>s3. s3\<lparr>g_uart4_recv_complete_flag := 1\<rparr>)
                   (if g_uart4_recv_length s1 = 0
                    then (let s2 = s1\<lparr>g_uart4_recv_length := of_nat UART4_RECEIVE_LENGTH\<rparr>
                          in recv_array_store UART4_RECV_BUFF (unat (g_uart4_recv_length s2)) 0 s2)
                    else recv_array_store UART4_RECV_BUFF (unat (g_uart4_recv_length s1)) 0 s1)
            else Some s1)
      else Some s)"

subsection \<open>What the hardware does between the handlers\<close>

text \<open>
  Modelled from the spec: the transport, the idle-line detector and the time base are
  external collaborators.  The transport is circular: each byte is stored at the write
  position and the remaining counter goes down by one; when it reaches zero the
  full-transfer flag is raised, the counter is reloaded with the programmed number and
  the write position wraps to the buffer origin.  A channel that is not circular stops
  instead.  A disabled channel moves nothing.
\<close>

definition dma_transfer :: "dma_periph \<Rightarrow> dma_channel_enum \<Rightarrow> u8 \<Rightarrow> state \<Rightarrow> state option" where
  "dma_transfer p ch b s =
     (let c = dma_regs s (p, ch)
      in if \<not> ch_en c \<or> ch_cnt c = 0 then Some s
         else (case ch_memory0 c of
                 None \<Rightarrow> None
               | Some r \<Rightarrow>
                  map_option
                    (\<lambda>s1. s1\<lparr>dma_regs := (dma_regs s1)((p, ch) :=
                       (if ch_cnt c - 1 = 0
                        then (if ch_circular c
                              then c\<lparr>ch_cnt := ch_number c, ch_offset := 0,
                                     ch_flags := insert DMA_FLAG_FTF (ch_flags c)\<rparr>
                              else c\<lparr>ch_cnt := 0, ch_en := False, ch_offset := ch_offset c + 1,
                                     ch_flags := insert DMA_FLAG_FTF (ch_flags c)\<rparr>)
                        else c\<lparr>ch_cnt := ch_cnt c - 1, ch_offset := ch_offset c + 1\<rparr>))\<rparr>)
                    (recv_array_store r (ch_offset c) b s)))"

text \<open>The receiver saw the line idle: the idle flag of the USART is raised.\<close>

definition usart_idle_detect :: "usart_periph \<Rightarrow> state \<Rightarrow> state" where
  "usart_idle_detect u s =
     s\<lparr>usart_flags := (usart_flags s)(u := insert USART_INT_FLAG_IDLE (usart_flags s u))\<rparr>"

text \<open>
  One tick of a timer's clock.  A stopped timer ignores it.  A running timer counts up;
  the tick at the auto-reload value is the update event: the counter restarts at zero,
  the update flag is raised and, in single-pulse mode, the timer stops.
\<close>

definition timer_clock :: "timer_periph \<Rightarrow> state \<Rightarrow> state" where
  "timer_clock t s =
     (let r = timer_periphs s t
      in if \<not> tm_en r then s
         else if tm_cnt r = tm_car r
         then s\<lparr>timer_periphs := (timer_periphs s)(t :=
                  r\<lparr>tm_cnt := 0, tm_flags := insert TIMER_INT_FLAG_UP (tm_flags r),
                    tm_en := \<not> tm_single_pulse r\<rparr>)\<rparr>
         else s\<lparr>timer_periphs := (timer_periphs s)(t := r\<lparr>tm_cnt := tm_cnt r + 1\<rparr>)\<rparr>)"

subsection \<open>The three links and their events\<close>

datatype link = Host_link | Terminal_link | Module_link

fun link_dma_channel :: "link \<Rightarrow> dma_channel_enum" where
  "link_dma_channel Host_link = DMA_CH0"
| "link_dma_channel Terminal_link = DMA_CH2"
| "link_dma_channel Module_link = DMA_CH4"

fun link_timer :: "link \<Rightarrow> timer_periph" where
  "link_timer Host_link = TIMER5"
| "link_timer Terminal_link = TIMER6"
| "link_timer Module_link = TIMER15"

fun link_usart :: "link \<Rightarrow> usart_periph" where
  "link_usart Host_link = USART0"
| "link_usart Terminal_link = USART1"
| "link_usart Module_link = UART4"

fun link_array :: "link \<Rightarrow> recv_array" where
  "link_array Host_link = BSP_USART_RECV_BUFF"
| "link_array Terminal_link = USART_TERMINAL_RECV_BUFF"
| "link_array Module_link = UART4_RECV_BUFF"

fun capacity :: "link \<Rightarrow> nat" where
  "capacity Host_link = BSP_USART_RECEIVE_LENGTH"
| "capacity Terminal_link = USART_TERMINAL_RECEIVE_LENGTH"
| "capacity Module_link = UART4_RECEIVE_LENGTH"

fun recv_buff :: "link \<Rightarrow> state \<Rightarrow> u8 list" where
  "recv_buff Host_link s = g_bsp_usart_recv_buff s"
| "recv_buff Terminal_link s = g_usart_terminal_recv_buff s"
| "recv_buff Module_link s = g_uart4_recv_buff s"

fun recv_length :: "link \<Rightarrow> state \<Rightarrow> u16" where
  "recv_length Host_link s = g_bsp_usart_recv_length s"
| "recv_length Terminal_link s = g_usart_terminal_recv_length s"
| "recv_length Module_link s = g_uart4_recv_length s"

fun recv_complete_flag :: "link \<Rightarrow> state \<Rightarrow> u8" where
  "recv_complete_flag Host_link s = g_bsp_usart_recv_complete_flag s"
| "recv_complete_flag Terminal_link s = g_usart_terminal_recv_complete_flag s"
| "recv_complete_flag Module_link s = g_uart4_recv_complete_flag s"

definition rx_dma :: "link \<Rightarrow> state \<Rightarrow> dma_channel" where
  "rx_dma l s = dma_regs s (DMA0, link_dma_channel l)"

definition confirmation_timer :: "link \<Rightarrow> state \<Rightarrow> timer_regs" where
  "confirmation_timer l s = timer_periphs s (link_timer l)"

fun usart_irq :: "link \<Rightarrow> state \<Rightarrow> state" where
  "usart_irq Host_link = BSP_USART_IRQHandler"
| "usart_irq Terminal_link = USART1_IRQHandler"
| "usart_irq Module_link = UART4_IRQHandler"

fun timer_irq :: "link \<Rightarrow> state \<Rightarrow> state option" where
  "timer_irq Host_link = TIMER5_DAC_UDR_IRQHandler"
| "timer_irq Terminal_link = TIMER6_IRQHandler"
| "timer_irq Module_link = TIMER15_IRQHandler"

fun rx_dma_receive_reset :: "link \<Rightarrow> state \<Rightarrow> state" where
  "rx_dma_receive_reset Host_link = usart_rx_dma_receive_reset"
| "rx_dma_receive_reset Terminal_link = usart_terminal_rx_dma_receive_reset"
| "rx_dma_receive_reset Module_link = uart4_rx_dma_receive_reset"






text \<open>
  The events of a link: the transport moves one byte; the line goes idle and the USART
  handler runs; the timer's clock ticks and, when the update flag is then up, the timer
  handler runs; the consumer re-arms.  Handlers run to completion.
\<close>

datatype event = Rx link u8 | Idle_line link | Tick link | Rearm link

fun step :: "event \<Rightarrow> state \<Rightarrow> state option" where
  "step (Rx l b) s = dma_transfer DMA0 (link_dma_channel l) b s"
| "step (Idle_line l) s = Some (usart_irq l (usart_idle_detect (link_usart l) s))"
| "step (Tick l) s =
     (let s1 = timer_clock (link_timer l) s
      in if timer_interrupt_flag_get (link_timer l) TIMER_INT_FLAG_UP s1
         then timer_irq l s1 else Some s1)"
| "step (Rearm l) s = Some (rx_dma_receive_reset l s)"

fun run :: "event list \<Rightarrow> state \<Rightarrow> state option" where
  "run [] s = Some s"
| "run (e # es) s = (case step e s of None \<Rightarrow> None | Some s1 \<Rightarrow> run es s1)"

fun event_link :: "event \<Rightarrow> link" where
  "event_link (Rx l b) = l"
| "event_link (Idle_line l) = l"
| "event_link (Tick l) = l"
| "event_link (Rearm l) = l"

text \<open>
  The debounce interval of a link in ticks: the counter starts at zero, so the update
  event is the tick after the counter has reached the auto-reload value.
\<close>

definition debounce_ticks :: "link \<Rightarrow> state \<Rightarrow> nat" where
  "debounce_ticks l s = unat (tm_car (confirmation_timer l s)) + 1"

text \<open>
  A link is configured when it is wired as the initialisation leaves it: the array has
  one byte more than the capacity, the channel is circular over the link's own array with
  the capacity as its transfer number, and the timer is single-pulse.
\<close>

definition configured :: "link \<Rightarrow> state \<Rightarrow> bool" where
  "configured l s \<longleftrightarrow>
     length (recv_buff l s) = capacity l + 1 \<and>
     ch_memory0 (rx_dma l s) = Some (link_array l) \<and>
     ch_number (rx_dma l s) = of_nat (capacity l) \<and>
     ch_circular (rx_dma l s) \<and>
     tm_single_pulse (confirmation_timer l s)"

text \<open>
  State \<open>IDLE\<close> of a link: configured, the channel enabled with nothing moved since the
  last re-arm (full counter, write position at the origin, no full-transfer flag), the
  timer stopped with no update pending.
\<close>

definition link_idle :: "link \<Rightarrow> state \<Rightarrow> bool" where
  "link_idle l s \<longleftrightarrow>
     configured l s \<and>
     ch_en (rx_dma l s) \<and>
     ch_cnt (rx_dma l s) = of_nat (capacity l) \<and>
     ch_offset (rx_dma l s) = 0 \<and>
     DMA_FLAG_FTF \<notin> ch_flags (rx_dma l s) \<and>
     \<not> tm_en (confirmation_timer l s) \<and>
     TIMER_INT_FLAG_UP \<notin> tm_flags (confirmation_timer l s)"


text \<open>
  A burst: bytes moved by the transport with clock ticks in between, and neither an
  idle-line event nor a re-arm.
\<close>

fun is_burst :: "link \<Rightarrow> event list \<Rightarrow> bool" where
  "is_burst l [] = True"
| "is_burst l (Rx k b # es) = (k = l \<and> is_burst l es)"
| "is_burst l (Tick k # es) = (k = l \<and> is_burst l es)"
| "is_burst l (e # es) = False"

fun burst_bytes :: "event list \<Rightarrow> u8 list" where
  "burst_bytes [] = []"
| "burst_bytes (Rx k b # es) = b # burst_bytes es"
| "burst_bytes (e # es) = burst_bytes es"

fun burst_ticks :: "event list \<Rightarrow> nat" where
  "burst_ticks [] = 0"
| "burst_ticks (Tick k # es) = Suc (burst_ticks es)"
| "burst_ticks (e # es) = burst_ticks es"

subsection \<open>One link in isolation\<close>

text \<open>
  The part of the state that belongs to one link, and the effect of the link's events on
  that part.  The three copies of the handlers act alike on it; this is proved below and
  lets the properties of a link be shown once.
\<close>

record link_view =
  lv_buff :: "u8 list"
  lv_length :: u16
  lv_flag :: u8
  lv_dma :: dma_channel
  lv_timer :: timer_regs
  lv_usart :: "usart_int_flag set"

definition view :: "link \<Rightarrow> state \<Rightarrow> link_view" where
  "view l s =
     \<lparr>lv_buff = recv_buff l s, lv_length = recv_length l s, lv_flag = recv_complete_flag l s,
      lv_dma = rx_dma l s, lv_timer = confirmation_timer l s,
      lv_usart = usart_flags s (link_usart l)\<rparr>"

definition lv_rx :: "u8 \<Rightarrow> link_view \<Rightarrow> link_view option" where
  "lv_rx b v =
     (let c = lv_dma v
      in if \<not> ch_en c \<or> ch_cnt c = 0 then Some v
         else map_option
                (\<lambda>a. v\<lparr>lv_buff := a, lv_dma :=
                   (if ch_cnt c - 1 = 0
                    then (if ch_circular c
                          then c\<lparr>ch_cnt := ch_number c, ch_offset := 0,
                                 ch_flags := insert DMA_FLAG_FTF (ch_flags c)\<rparr>
                          else c\<lparr>ch_cnt := 0, ch_en := False, ch_offset := ch_offset c + 1,
                                 ch_flags := insert DMA_FLAG_FTF (ch_flags c)\<rparr>)
                    else c\<lparr>ch_cnt := ch_cnt c - 1, ch_offset := ch_offset c + 1\<rparr>)\<rparr>)
                (array_store (lv_buff v) (ch_offset c) b))"

definition lv_idle :: "nat \<Rightarrow> link_view \<Rightarrow> link_view" where
  "lv_idle cap v =
     (let v2 = v\<lparr>lv_usart := lv_usart v - {USART_INT_FLAG_IDLE},
                 lv_length := ucast ((of_nat cap :: u32) - ch_cnt (lv_dma v))\<rparr>
      in if lv_length v2 = 0 \<and> DMA_FLAG_FTF \<notin> ch_flags (lv_dma v2) then v2
         else v2\<lparr>lv_timer := (lv_timer v2)\<lparr>tm_cnt := 0, tm_en := True\<rparr>\<rparr>)"

definition lv_clock :: "link_view \<Rightarrow> link_view" where
  "lv_clock v =
     (let r = lv_timer v
      in if \<not> tm_en r then v
         else if tm_cnt r = tm_car r
         then v\<lparr>lv_timer := r\<lparr>tm_cnt := 0, tm_flags := insert TIMER_INT_FLAG_UP (tm_flags r),
                                tm_en := \<not> tm_single_pulse r\<rparr>\<rparr>
         else v\<lparr>lv_timer := r\<lparr>tm_cnt := tm_cnt r + 1\<rparr>\<rparr>)"

definition lv_timer_irq :: "nat \<Rightarrow> link_view \<Rightarrow> link_view option" where
  "lv_timer_irq cap v =
     (if TIMER_INT_FLAG_UP \<in> tm_flags (lv_timer v) then
        (let v1 = v\<lparr>lv_timer := (lv_timer v)\<lparr>tm_flags := tm_flags (lv_timer v) - {TIMER_INT_FLAG_UP}\<rparr>\<rparr>
         in if (ucast (lv_length v1) :: u32) = of_nat cap - ch_cnt (lv_dma v1)
            then (let n = (if lv_length v1 = 0 then of_nat cap else lv_length v1)
                  in map_option (\<lambda>a. v1\<lparr>lv_length := n, lv_buff := a, lv_flag := 1\<rparr>)
                       (array_store (lv_buff v1) (unat n) 0))
            else Some v1)
      else Some v)"

definition lv_rearm :: "nat \<Rightarrow> link_view \<Rightarrow> link_view" where
  "lv_rearm cap v =
     v\<lparr>lv_length := 0, lv_flag := 0,
       lv_dma := (lv_dma v)\<lparr>ch_en := True, ch_cnt := of_nat cap, ch_number := of_nat cap,
                            ch_offset := 0, ch_flags := {}\<rparr>\<rparr>"

fun lv_step :: "nat \<Rightarrow> event \<Rightarrow> link_view \<Rightarrow> link_view option" where
  "lv_step cap (Rx l b) v = lv_rx b v"
| "lv_step cap (Idle_line l) v = Some (lv_idle cap v)"
| "lv_step cap (Tick l) v =
     (let v1 = lv_clock v
      in if TIMER_INT_FLAG_UP \<in> tm_flags (lv_timer v1) then lv_timer_irq cap v1 else Some v1)"
| "lv_step cap (Rearm l) v = Some (lv_rearm cap v)"

fun lv_run :: "nat \<Rightarrow> event list \<Rightarrow> link_view \<Rightarrow> link_view option" where
  "lv_run cap [] v = Some v"
| "lv_run cap (e # es) v = (case lv_step cap e v of None \<Rightarrow> None | Some v1 \<Rightarrow> lv_run cap es v1)"

text \<open>
  \<open>moved cap n v\<close>: the enabled circular channel of the view has moved \<open>n\<close> bytes since
  the last re-arm, \<open>n\<close> at most the capacity.  After exactly \<open>cap\<close> bytes the counter has
  reloaded and the full-transfer flag is up.
\<close>

definition moved :: "nat \<Rightarrow> nat \<Rightarrow> link_view \<Rightarrow> bool" where
  "moved cap n v \<longleftrightarrow>
     length (lv_buff v) = cap + 1 \<and> ch_en (lv_dma v) \<and>
     ch_number (lv_dma v) = of_nat cap \<and> ch_circular (lv_dma v) \<and>
     (if n < cap
      then ch_cnt (lv_dma v) = of_nat (cap - n) \<and> ch_offset (lv_dma v) = n \<and>
           DMA_FLAG_FTF \<notin> ch_flags (lv_dma v)
      else ch_cnt (lv_dma v) = of_nat cap \<and> ch_offset (lv_dma v) = 0 \<and>
           DMA_FLAG_FTF \<in> ch_flags (lv_dma v))"

text \<open>
  \<open>counted cap n v\<close>: the remaining counter of the view reads as after \<open>n\<close> bytes, with
  \<open>0 < n \<le> cap\<close>; the full buffer is told from the empty one by the full-transfer flag.
\<close>

definition counted :: "nat \<Rightarrow> nat \<Rightarrow> link_view \<Rightarrow> bool" where
  "counted cap n v \<longleftrightarrow>
     0 < n \<and>
     ((n < cap \<and> ch_cnt (lv_dma v) = of_nat (cap - n)) \<or>
      (n = cap \<and> ch_cnt (lv_dma v) = of_nat cap \<and> DMA_FLAG_FTF \<in> ch_flags (lv_dma v)))"

subsection \<open>The invariant of the subsystem\<close>

text \<open>
  For each link: it is configured, the remaining counter of its channel is at most the
  capacity, and so is the received length.
\<close>

definition link_inv :: "link \<Rightarrow> state \<Rightarrow> bool" where
  "link_inv l s \<longleftrightarrow>
     configured l s \<and>
     unat (ch_cnt (rx_dma l s)) \<le> capacity l \<and>
     unat (recv_length l s) \<le> capacity l"

definition subsystem_inv :: "state \<Rightarrow> bool" where
  "subsystem_inv s \<longleftrightarrow> link_inv Host_link s \<and> link_inv Terminal_link s \<and> link_inv Module_link s"

text \<open>The same invariant on the view of a link whose array is \<open>r\<close>.\<close>

definition lv_inv :: "recv_array \<Rightarrow> nat \<Rightarrow> link_view \<Rightarrow> bool" where
  "lv_inv r cap v \<longleftrightarrow>
     length (lv_buff v) = cap + 1 \<and>
     ch_memory0 (lv_dma v) = Some r \<and>
     ch_number (lv_dma v) = of_nat cap \<and>
     ch_circular (lv_dma v) \<and>
     tm_single_pulse (lv_timer v) \<and>
     unat (ch_cnt (lv_dma v)) \<le> cap \<and>
     unat (lv_length v) \<le> cap"

subsection \<open>Example states\<close>

text \<open>
  The initialised state with the full-transfer flag of the host link's channel raised:
  what exactly C zero bytes leave behind, the counter being reloaded to C.
\<close>

definition host_buffer_full :: state where
  "host_buffer_full =
     initial_state\<lparr>dma_regs := (dma_regs initial_state)((DMA0, DMA_CH0) :=
       (dma_regs initial_state (DMA0, DMA_CH0))\<lparr>ch_flags := {DMA_FLAG_FTF}\<rparr>)\<rparr>"

text \<open>
  The same state a moment later: the idle handler has recorded the length 0 and armed the
  timer, and the timer has counted up to its auto-reload value, one tick before the
  update event.
\<close>

definition host_debouncing :: state where
  "host_debouncing =
     host_buffer_full\<lparr>timer_periphs := (timer_periphs host_buffer_full)(TIMER5 :=
       (timer_periphs host_buffer_full TIMER5)\<lparr>tm_en := True, tm_cnt := 999\<rparr>)\<rparr>"

text \<open>
  And after that tick, before the handler runs: the single-pulse timer has stopped with
  its update flag up.
\<close>

definition host_update_pending :: state where
  "host_update_pending =
     host_buffer_full\<lparr>timer_periphs := (timer_periphs host_buffer_full)(TIMER5 :=
       (timer_periphs host_buffer_full TIMER5)\<lparr>tm_flags := {TIMER_INT_FLAG_UP}\<rparr>)\<rparr>"

text \<open>
  The initialised state after three zero bytes on the host link: the remaining counter
  is C - 3 and the write position is 3.
\<close>

definition host_three_bytes :: state where
  "host_three_bytes =
     initial_state\<lparr>dma_regs := (dma_regs initial_state)((DMA0, DMA_CH0) :=
       (dma_regs initial_state (DMA0, DMA_CH0))\<lparr>ch_cnt := 1021, ch_offset := 3\<rparr>)\<rparr>"

section \<open>Proofs\<close>

subsection \<open>The handlers on the view of their link\<close>

lemmas periph_defs = dma_channel_disable_def dma_channel_enable_def dma_transfer_number_config_def
  dma_transfer_number_get_def dma_flag_get_def dma_flags_reset_def DMA_INTC0_reset_def DMA_INTC1_reset_def
  timer_counter_value_config_def timer_enable_def timer_disable_def timer_interrupt_flag_get_def
  timer_interrupt_flag_clear_def usart_interrupt_flag_get_def usart_interrupt_flag_clear_def

lemmas obs_defs = rx_dma_def confirmation_timer_def view_def

lemma view_rearm: "view l (rx_dma_receive_reset l s) = lv_rearm (capacity l) (view l s)"
  by (cases l) (simp_all add: usart_rx_dma_receive_reset_def usart_terminal_rx_dma_receive_reset_def
      uart4_rx_dma_receive_reset_def periph_defs obs_defs lv_rearm_def Let_def)

lemma view_idle:
  "view l (usart_irq l (usart_idle_detect (link_usart l) s)) = lv_idle (capacity l) (view l s)"
  by (cases l) (simp_all add: BSP_USART_IRQHandler_def USART1_IRQHandler_def UART4_IRQHandler_def
      usart_idle_detect_def periph_defs obs_defs lv_idle_def Let_def)

lemma view_clock: "view l (timer_clock (link_timer l) s) = lv_clock (view l s)"
  by (cases l) (simp_all add: timer_clock_def obs_defs lv_clock_def Let_def)

lemma view_timer_irq: "map_option (view l) (timer_irq l s) = lv_timer_irq (capacity l) (view l s)"
  by (cases l) (simp_all add: TIMER5_DAC_UDR_IRQHandler_def TIMER6_IRQHandler_def TIMER15_IRQHandler_def
      recv_array_store_def array_store_def periph_defs obs_defs lv_timer_irq_def Let_def
      option.map_comp comp_def)

lemma view_rx:
  "ch_memory0 (rx_dma l s) = Some (link_array l) \<Longrightarrow>
   map_option (view l) (dma_transfer DMA0 (link_dma_channel l) b s) = lv_rx b (view l s)"
  by (cases l) (simp_all add: dma_transfer_def recv_array_store_def array_store_def obs_defs
      lv_rx_def Let_def option.map_comp comp_def)

subsection \<open>Word arithmetic of the length computation\<close>

lemma w_down: "(ucast (of_nat n :: u32) :: u16) = of_nat n"
  by (simp add: unsigned_of_nat word_of_nat_eq_iff)

lemma w_len_of_cnt:
  "n \<le> cap \<Longrightarrow> (ucast ((of_nat cap :: u32) - of_nat (cap - n)) :: u16) = of_nat n"
proof -
  assume "n \<le> cap"
  then have "(of_nat cap :: u32) - of_nat (cap - n) = of_nat n"
    by simp
  then show ?thesis by (simp add: w_down)
qed

lemma w16_unat: "n < 65536 \<Longrightarrow> unat (of_nat n :: u16) = n"
  by (simp add: unat_of_nat)

lemma w16_zero: "n < 65536 \<Longrightarrow> ((of_nat n :: u16) = 0) = (n = 0)"
  using w16_unat[of n] by (auto simp: word_unat_eq_iff)

lemma w32_unat: "n < 65536 \<Longrightarrow> unat (of_nat n :: u32) = n"
  by (simp add: unat_of_nat)

lemma w32_zero: "n < 65536 \<Longrightarrow> ((of_nat n :: u32) = 0) = (n = 0)"
  using w32_unat[of n] by (auto simp: word_unat_eq_iff)

lemma w_ucast_up: "n < 65536 \<Longrightarrow> (ucast (of_nat n :: u16) :: u32) = of_nat n"
  by (simp add: unsigned_of_nat take_bit_nat_eq_self)

lemma w32_dec: "n < cap \<Longrightarrow> (of_nat (cap - n) :: u32) - 1 = of_nat (cap - Suc n)"
proof -
  assume "n < cap"
  then have "cap - n = Suc (cap - Suc n)" by simp
  then show ?thesis by (simp only: of_nat_Suc) simp
qed

lemma w32_succ: "unat (c :: u32) < unat (r :: u32) \<Longrightarrow> unat (c + 1) = Suc (unat c)"
proof -
  assume a: "unat c < unat r"
  have "unat r < 2 ^ 32" using unsigned_less[of r, where 'a=nat] by simp
  with a have "unat c + 1 < 2 ^ 32" by simp
  then show ?thesis by (simp add: unat_word_ariths)
qed

lemma w_len_bound:
  assumes "unat (c :: u32) \<le> cap" and "cap < 65536"
  shows "unat (ucast ((of_nat cap :: u32) - c) :: u16) = cap - unat c"
proof -
  define n where "n = cap - unat c"
  have n: "n \<le> cap" and u: "unat c = cap - n" using assms(1) by (simp_all add: n_def)
  have "c = of_nat (unat c)" by simp
  then have c: "c = of_nat (cap - n)" by (simp only: u)
  have "(ucast ((of_nat cap :: u32) - c) :: u16) = of_nat n"
    unfolding c using n by (rule w_len_of_cnt)
  moreover have "unat (of_nat n :: u16) = n" using n assms(2) by (intro w16_unat) simp
  ultimately show ?thesis by (simp add: n_def)
qed

lemma lv_run_append:
  "lv_run cap (xs @ ys) v = (case lv_run cap xs v of None \<Rightarrow> None | Some v1 \<Rightarrow> lv_run cap ys v1)"
  by (induction xs arbitrary: v) (auto split: option.splits)

lemma w32_inj: "a < 65536 \<Longrightarrow> b < 65536 \<Longrightarrow> ((of_nat a :: u32) = of_nat b) = (a = b)"
  using w32_unat[of a] w32_unat[of b] by (auto simp: word_unat_eq_iff)

lemma lv_rx_moved:
  assumes m: "moved cap n v" and n: "n < cap" and cap: "cap < 65536"
  shows "\<exists>v'. lv_rx b v = Some v' \<and> moved cap (Suc n) v' \<and>
           lv_buff v' = (lv_buff v)[n := b] \<and> lv_length v' = lv_length v \<and>
           lv_flag v' = lv_flag v \<and> lv_timer v' = lv_timer v \<and> lv_usart v' = lv_usart v"
proof -
  define d where "d = ch_cnt (lv_dma v) - 1"
  from m n have en: "ch_en (lv_dma v)" and cnt: "ch_cnt (lv_dma v) = of_nat (cap - n)"
    and off: "ch_offset (lv_dma v) = n" and len: "length (lv_buff v) = cap + 1"
    and num: "ch_number (lv_dma v) = of_nat cap" and circ: "ch_circular (lv_dma v)"
    and ftf: "DMA_FLAG_FTF \<notin> ch_flags (lv_dma v)"
    by (simp_all add: moved_def)
  from n cap have "0 < cap - n" and "cap - n < 2 ^ LENGTH(32)" by simp_all
  then have nz: "ch_cnt (lv_dma v) \<noteq> 0"
    unfolding cnt by (rule of_nat_neq_0)
  have dd: "d = of_nat (cap - Suc n)"
    unfolding d_def cnt using n by (rule w32_dec)
  from n cap have "cap - Suc n < 65536" by simp
  then have dz: "(d = 0) = (Suc n = cap)"
    unfolding dd using w32_zero[of "cap - Suc n"] n by auto
  have r: "lv_rx b v = Some (v\<lparr>lv_buff := (lv_buff v)[n := b], lv_dma :=
              (if d = 0
               then (lv_dma v)\<lparr>ch_cnt := ch_number (lv_dma v), ch_offset := 0,
                              ch_flags := insert DMA_FLAG_FTF (ch_flags (lv_dma v))\<rparr>
               else (lv_dma v)\<lparr>ch_cnt := d, ch_offset := Suc n\<rparr>)\<rparr>)"
    using en off len circ nz n
    by (simp add: lv_rx_def array_store_def Let_def d_def)
  show ?thesis
  proof (cases "Suc n = cap")
    case True
    with dz have "d = 0" by simp
    then show ?thesis
      unfolding r using en len num circ True
      by (simp add: moved_def)
  next
    case False
    with n have lt: "Suc n < cap" by simp
    from False dz have "d \<noteq> 0" by simp
    then show ?thesis
      unfolding r using en len num circ ftf lt dd
      by (simp add: moved_def)
  qed
qed

lemma lv_tick_stopped:
  "\<not> tm_en (lv_timer v) \<Longrightarrow> TIMER_INT_FLAG_UP \<notin> tm_flags (lv_timer v) \<Longrightarrow>
   lv_step cap (Tick l) v = Some v"
  by (simp add: lv_clock_def Let_def)

lemma lv_tick_running:
  "tm_en (lv_timer v) \<Longrightarrow> TIMER_INT_FLAG_UP \<notin> tm_flags (lv_timer v) \<Longrightarrow>
   unat (tm_cnt (lv_timer v)) < unat (tm_car (lv_timer v)) \<Longrightarrow>
   lv_step cap (Tick l) v = Some (v\<lparr>lv_timer := (lv_timer v)\<lparr>tm_cnt := tm_cnt (lv_timer v) + 1\<rparr>\<rparr>)"
  by (auto simp add: lv_clock_def Let_def)

lemma lv_burst:
  assumes "moved cap n v" and "is_burst l es" and "n + length (burst_bytes es) \<le> cap"
    and "cap < 65536" and "TIMER_INT_FLAG_UP \<notin> tm_flags (lv_timer v)"
    and "tm_en (lv_timer v) \<longrightarrow> unat (tm_cnt (lv_timer v)) + burst_ticks es \<le> unat (tm_car (lv_timer v))"
  shows "\<exists>v'. lv_run cap es v = Some v' \<and> moved cap (n + length (burst_bytes es)) v' \<and>
           lv_buff v' = take n (lv_buff v) @ burst_bytes es @ drop (n + length (burst_bytes es)) (lv_buff v) \<and>
           lv_length v' = lv_length v \<and> lv_flag v' = lv_flag v \<and> lv_usart v' = lv_usart v \<and>
           lv_timer v' = (if tm_en (lv_timer v)
                          then (lv_timer v)\<lparr>tm_cnt := tm_cnt (lv_timer v) + of_nat (burst_ticks es)\<rparr>
                          else lv_timer v)"
  using assms
proof (induction es arbitrary: v n)
  case Nil
  then show ?case by simp
next
  case (Cons e es)
  show ?case
  proof (cases e)
    case (Rx k b)
    with Cons.prems have k: "k = l" and bu: "is_burst l es"
      and le: "Suc n + length (burst_bytes es) \<le> cap" and n: "n < cap"
      by simp_all
    from lv_rx_moved[OF Cons.prems(1) n Cons.prems(4), of b]
    obtain v1 where s1: "lv_rx b v = Some v1" and m1: "moved cap (Suc n) v1"
      and b1: "lv_buff v1 = (lv_buff v)[n := b]" and l1: "lv_length v1 = lv_length v"
      and f1: "lv_flag v1 = lv_flag v" and t1: "lv_timer v1 = lv_timer v"
      and u1: "lv_usart v1 = lv_usart v"
      by blast
    from Cons.prems Rx t1 have tp: "TIMER_INT_FLAG_UP \<notin> tm_flags (lv_timer v1)"
      and tq: "tm_en (lv_timer v1) \<longrightarrow> unat (tm_cnt (lv_timer v1)) + burst_ticks es \<le> unat (tm_car (lv_timer v1))"
      by simp_all
    from Cons.IH[OF m1 bu le Cons.prems(4) tp tq]
    obtain v' where r: "lv_run cap es v1 = Some v'"
      and m': "moved cap (Suc n + length (burst_bytes es)) v'"
      and b': "lv_buff v' = take (Suc n) (lv_buff v1) @ burst_bytes es @ drop (Suc n + length (burst_bytes es)) (lv_buff v1)"
      and rest: "lv_length v' = lv_length v1" "lv_flag v' = lv_flag v1" "lv_usart v' = lv_usart v1"
      and t': "lv_timer v' = (if tm_en (lv_timer v1)
                          then (lv_timer v1)\<lparr>tm_cnt := tm_cnt (lv_timer v1) + of_nat (burst_ticks es)\<rparr>
                          else lv_timer v1)"
      by blast
    from Cons.prems(1) n have len: "n < length (lv_buff v)" by (simp add: moved_def)
    have bb: "lv_buff v' = take n (lv_buff v) @ (b # burst_bytes es) @ drop (Suc n + length (burst_bytes es)) (lv_buff v)"
      using b' b1 len by (simp add: take_Suc_conv_app_nth)
    show ?thesis
      using Rx s1 r m' bb rest t' l1 f1 u1 t1 by simp
  next
    case (Tick k)
    with Cons.prems have k: "k = l" and bu: "is_burst l es"
      and le: "n + length (burst_bytes es) \<le> cap"
      by simp_all
    show ?thesis
    proof (cases "tm_en (lv_timer v)")
      case False
      have s1: "lv_step cap (Tick k) v = Some v"
        using False Cons.prems(5) by (rule lv_tick_stopped)
      from Cons.IH[OF Cons.prems(1) bu le Cons.prems(4,5)] False
      show ?thesis using Tick s1 by simp
    next
      case True
      with Cons.prems Tick have lt: "unat (tm_cnt (lv_timer v)) < unat (tm_car (lv_timer v))"
        and q: "Suc (unat (tm_cnt (lv_timer v))) + burst_ticks es \<le> unat (tm_car (lv_timer v))"
        by simp_all
      let ?v1 = "v\<lparr>lv_timer := (lv_timer v)\<lparr>tm_cnt := tm_cnt (lv_timer v) + 1\<rparr>\<rparr>"
      have s1: "lv_step cap (Tick k) v = Some ?v1"
        using True Cons.prems(5) lt by (rule lv_tick_running)
      have m1: "moved cap n ?v1" using Cons.prems(1) by (simp add: moved_def)
      have tp: "TIMER_INT_FLAG_UP \<notin> tm_flags (lv_timer ?v1)" using Cons.prems(5) by simp
      have tq: "tm_en (lv_timer ?v1) \<longrightarrow> unat (tm_cnt (lv_timer ?v1)) + burst_ticks es \<le> unat (tm_car (lv_timer ?v1))"
        using q w32_succ[OF lt] by simp
      from Cons.IH[OF m1 bu le Cons.prems(4) tp tq]
      show ?thesis using Tick s1 True by (simp add: add.assoc)
    qed
  next
    case (Idle_line k)
    with Cons.prems show ?thesis by simp
  next
    case (Rearm k)
    with Cons.prems show ?thesis by simp
  qed
qed

subsection \<open>The confirmation timer of one link\<close>


lemma lv_ticks_running:
  "tm_en (lv_timer v) \<Longrightarrow> TIMER_INT_FLAG_UP \<notin> tm_flags (lv_timer v) \<Longrightarrow>
   unat (tm_cnt (lv_timer v)) + k \<le> unat (tm_car (lv_timer v)) \<Longrightarrow>
   lv_run cap (replicate k (Tick l)) v =
     Some (v\<lparr>lv_timer := (lv_timer v)\<lparr>tm_cnt := tm_cnt (lv_timer v) + of_nat k\<rparr>\<rparr>)"
proof (induction k arbitrary: v)
  case 0
  then show ?case by simp
next
  case (Suc k)
  from Suc.prems have lt: "unat (tm_cnt (lv_timer v)) < unat (tm_car (lv_timer v))" by simp
  let ?v1 = "v\<lparr>lv_timer := (lv_timer v)\<lparr>tm_cnt := tm_cnt (lv_timer v) + 1\<rparr>\<rparr>"
  have s1: "lv_step cap (Tick l) v = Some ?v1"
    using Suc.prems(1,2) lt by (rule lv_tick_running)
  have "lv_run cap (replicate k (Tick l)) ?v1 =
     Some (?v1\<lparr>lv_timer := (lv_timer ?v1)\<lparr>tm_cnt := tm_cnt (lv_timer ?v1) + of_nat k\<rparr>\<rparr>)"
    using Suc.prems w32_succ[OF lt] by (intro Suc.IH) simp_all
  then show ?case
    unfolding replicate_Suc lv_run.simps s1 by (simp add: add.assoc)
qed

lemma lv_tick_elapse:
  "tm_en (lv_timer v) \<Longrightarrow> tm_cnt (lv_timer v) = tm_car (lv_timer v) \<Longrightarrow>
   tm_single_pulse (lv_timer v) \<Longrightarrow>
   lv_step cap (Tick l) v =
     lv_timer_irq cap (v\<lparr>lv_timer := (lv_timer v)\<lparr>tm_cnt := 0,
        tm_flags := insert TIMER_INT_FLAG_UP (tm_flags (lv_timer v)), tm_en := False\<rparr>\<rparr>)"
  by (simp add: lv_clock_def Let_def)

lemma lv_timer_irq_final:
  assumes "TIMER_INT_FLAG_UP \<in> tm_flags (lv_timer v)"
    and "(ucast (lv_length v) :: u32) = of_nat cap - ch_cnt (lv_dma v)"
    and "n = (if lv_length v = 0 then of_nat cap else lv_length v)"
    and "unat n < length (lv_buff v)"
  shows "lv_timer_irq cap v =
     Some (v\<lparr>lv_timer := (lv_timer v)\<lparr>tm_flags := tm_flags (lv_timer v) - {TIMER_INT_FLAG_UP}\<rparr>,
             lv_length := n, lv_buff := (lv_buff v)[unat n := 0], lv_flag := 1\<rparr>)"
  using assms by (cases "lv_length v = 0") (simp_all add: lv_timer_irq_def array_store_def Let_def)

lemma lv_timer_irq_skip:
  assumes "TIMER_INT_FLAG_UP \<in> tm_flags (lv_timer v)"
    and "(ucast (lv_length v) :: u32) \<noteq> of_nat cap - ch_cnt (lv_dma v)"
  shows "lv_timer_irq cap v =
     Some (v\<lparr>lv_timer := (lv_timer v)\<lparr>tm_flags := tm_flags (lv_timer v) - {TIMER_INT_FLAG_UP}\<rparr>\<rparr>)"
  using assms by (simp add: lv_timer_irq_def Let_def)

text \<open>All but the last tick of the debounce interval, from a freshly armed timer.\<close>

lemma lv_debounce_wait:
  assumes "tm_en (lv_timer v)" and "tm_cnt (lv_timer v) = 0"
    and "TIMER_INT_FLAG_UP \<notin> tm_flags (lv_timer v)"
  shows "lv_run cap (replicate (unat (tm_car (lv_timer v))) (Tick l)) v =
     Some (v\<lparr>lv_timer := (lv_timer v)\<lparr>tm_cnt := tm_car (lv_timer v)\<rparr>\<rparr>)"
  using lv_ticks_running[of v "unat (tm_car (lv_timer v))" cap l] assms by simp

lemma lv_run_snoc:
  "lv_run cap (xs @ [e]) v = (case lv_run cap xs v of None \<Rightarrow> None | Some v1 \<Rightarrow> lv_step cap e v1)"
  by (simp add: lv_run_append split: option.splits)

lemma lv_debounce_elapse:
  assumes "tm_en (lv_timer v)" and "tm_cnt (lv_timer v) = 0"
    and "TIMER_INT_FLAG_UP \<notin> tm_flags (lv_timer v)" and "tm_single_pulse (lv_timer v)"
  shows "lv_run cap (replicate (unat (tm_car (lv_timer v)) + 1) (Tick l)) v =
     lv_timer_irq cap (v\<lparr>lv_timer := (lv_timer v)\<lparr>tm_cnt := 0,
        tm_flags := insert TIMER_INT_FLAG_UP (tm_flags (lv_timer v)), tm_en := False\<rparr>\<rparr>)"
proof -
  let ?w = "v\<lparr>lv_timer := (lv_timer v)\<lparr>tm_cnt := tm_car (lv_timer v)\<rparr>\<rparr>"
  have "replicate (unat (tm_car (lv_timer v)) + 1) (Tick l) =
        replicate (unat (tm_car (lv_timer v))) (Tick l) @ [Tick l]"
    by (simp add: replicate_append_same)
  then have "lv_run cap (replicate (unat (tm_car (lv_timer v)) + 1) (Tick l)) v =
       lv_step cap (Tick l) ?w"
    using lv_debounce_wait[OF assms(1,2,3), of cap l]
    by (simp only: lv_run_snoc option.case)
  also have "\<dots> = lv_timer_irq cap (?w\<lparr>lv_timer := (lv_timer ?w)\<lparr>tm_cnt := 0,
        tm_flags := insert TIMER_INT_FLAG_UP (tm_flags (lv_timer ?w)), tm_en := False\<rparr>\<rparr>)"
    using assms by (intro lv_tick_elapse) simp_all
  finally show ?thesis by simp
qed

subsection \<open>Finalisation of a frame on one link\<close>

lemma moved_counted: "moved cap n v \<Longrightarrow> 0 < n \<Longrightarrow> n \<le> cap \<Longrightarrow> counted cap n v"
  by (cases "n < cap") (simp_all add: moved_def counted_def)

lemma lv_idle_counted:
  assumes c: "counted cap n v" and cap: "cap < 65536"
  shows "lv_idle cap v =
     v\<lparr>lv_usart := lv_usart v - {USART_INT_FLAG_IDLE},
       lv_length := (if n < cap then of_nat n else 0),
       lv_timer := (lv_timer v)\<lparr>tm_cnt := 0, tm_en := True\<rparr>\<rparr>"
proof (cases "n < cap")
  case True
  with c have n: "0 < n" and cnt: "ch_cnt (lv_dma v) = of_nat (cap - n)"
    by (auto simp add: counted_def)
  from True have le: "n \<le> cap" by simp
  have L: "(ucast ((of_nat cap :: u32) - ch_cnt (lv_dma v)) :: u16) = of_nat n"
    unfolding cnt using le by (rule w_len_of_cnt)
  from True cap n have nz: "(of_nat n :: u16) \<noteq> 0"
    using w16_zero[of n] by simp
  show ?thesis
    using True nz by (simp add: lv_idle_def Let_def L)
next
  case False
  with c have cnt: "ch_cnt (lv_dma v) = of_nat cap" and ftf: "DMA_FLAG_FTF \<in> ch_flags (lv_dma v)"
    by (auto simp add: counted_def)
  show ?thesis
    using False ftf by (simp add: lv_idle_def Let_def cnt)
qed

lemma lv_idle_empty:
  assumes "ch_cnt (lv_dma v) = of_nat cap" and "DMA_FLAG_FTF \<notin> ch_flags (lv_dma v)"
  shows "lv_idle cap v = v\<lparr>lv_usart := lv_usart v - {USART_INT_FLAG_IDLE}, lv_length := 0\<rparr>"
  using assms by (simp add: lv_idle_def Let_def)

text \<open>Idle-line event, then all but the last tick of the debounce interval.\<close>

lemma lv_frame_pending:
  assumes c: "counted cap n v" and cap: "cap < 65536"
    and up: "TIMER_INT_FLAG_UP \<notin> tm_flags (lv_timer v)"
  shows "lv_run cap (Idle_line l # replicate (unat (tm_car (lv_timer v))) (Tick l)) v =
     Some (v\<lparr>lv_usart := lv_usart v - {USART_INT_FLAG_IDLE},
             lv_length := (if n < cap then of_nat n else 0),
             lv_timer := (lv_timer v)\<lparr>tm_cnt := tm_car (lv_timer v), tm_en := True\<rparr>\<rparr>)"
proof -
  let ?v1 = "v\<lparr>lv_usart := lv_usart v - {USART_INT_FLAG_IDLE},
       lv_length := (if n < cap then of_nat n else 0),
       lv_timer := (lv_timer v)\<lparr>tm_cnt := 0, tm_en := True\<rparr>\<rparr>"
  have i: "lv_idle cap v = ?v1" using c cap by (rule lv_idle_counted)
  have "lv_run cap (replicate (unat (tm_car (lv_timer ?v1))) (Tick l)) ?v1 =
     Some (?v1\<lparr>lv_timer := (lv_timer ?v1)\<lparr>tm_cnt := tm_car (lv_timer ?v1)\<rparr>\<rparr>)"
    using up by (intro lv_debounce_wait) simp_all
  then show ?thesis
    by (simp add: i)
qed

text \<open>Idle-line event, then the whole debounce interval: the frame is finalised.\<close>

lemma lv_frame:
  assumes c: "counted cap n v" and cap: "cap < 65536"
    and up: "TIMER_INT_FLAG_UP \<notin> tm_flags (lv_timer v)"
    and sp: "tm_single_pulse (lv_timer v)"
    and len: "length (lv_buff v) = cap + 1"
  shows "lv_run cap (Idle_line l # replicate (unat (tm_car (lv_timer v)) + 1) (Tick l)) v =
     Some (v\<lparr>lv_usart := lv_usart v - {USART_INT_FLAG_IDLE},
             lv_length := of_nat n, lv_buff := (lv_buff v)[n := 0], lv_flag := 1,
             lv_timer := (lv_timer v)\<lparr>tm_cnt := 0, tm_en := False\<rparr>\<rparr>)"
proof -
  let ?L = "if n < cap then of_nat n else (0 :: u16)"
  let ?v1 = "v\<lparr>lv_usart := lv_usart v - {USART_INT_FLAG_IDLE}, lv_length := ?L,
       lv_timer := (lv_timer v)\<lparr>tm_cnt := 0, tm_en := True\<rparr>\<rparr>"
  let ?v2 = "?v1\<lparr>lv_timer := (lv_timer ?v1)\<lparr>tm_cnt := 0,
        tm_flags := insert TIMER_INT_FLAG_UP (tm_flags (lv_timer ?v1)), tm_en := False\<rparr>\<rparr>"
  from c have n: "0 < n" "n \<le> cap" by (auto simp add: counted_def)
  have i: "lv_idle cap v = ?v1" using c cap by (rule lv_idle_counted)
  have e: "lv_run cap (replicate (unat (tm_car (lv_timer ?v1)) + 1) (Tick l)) ?v1 = lv_timer_irq cap ?v2"
    using up sp by (intro lv_debounce_elapse) simp_all
  have g: "(ucast (lv_length ?v2) :: u32) = of_nat cap - ch_cnt (lv_dma ?v2)"
  proof (cases "n < cap")
    case True
    with c have cnt: "ch_cnt (lv_dma v) = of_nat (cap - n)" by (auto simp add: counted_def)
    from True cap have "n < 65536" by simp
    then have a: "(ucast (of_nat n :: u16) :: u32) = of_nat n" by (rule w_ucast_up)
    have b: "(of_nat cap :: u32) - ch_cnt (lv_dma v) = of_nat n"
      unfolding cnt using n(2) by simp
    show ?thesis using True a by (simp add: b)
  next
    case False
    with c have cnt: "ch_cnt (lv_dma v) = of_nat cap" by (auto simp add: counted_def)
    show ?thesis using False by (simp add: cnt)
  qed
  have nz: "(of_nat n :: u16) \<noteq> 0" using n cap w16_zero[of n] by simp
  have m: "(of_nat n :: u16) = (if lv_length ?v2 = 0 then of_nat cap else lv_length ?v2)"
    using n nz by auto
  have u: "unat (of_nat n :: u16) = n" using n cap by (intro w16_unat) simp
  have f: "lv_timer_irq cap ?v2 =
     Some (?v2\<lparr>lv_timer := (lv_timer ?v2)\<lparr>tm_flags := tm_flags (lv_timer ?v2) - {TIMER_INT_FLAG_UP}\<rparr>,
             lv_length := of_nat n, lv_buff := (lv_buff ?v2)[unat (of_nat n :: u16) := 0], lv_flag := 1\<rparr>)"
    using g m by (rule lv_timer_irq_final[rotated]) (use n in \<open>simp_all add: u len\<close>)
  have "lv_run cap (Idle_line l # replicate (unat (tm_car (lv_timer v)) + 1) (Tick l)) v =
        lv_run cap (replicate (unat (tm_car (lv_timer ?v1)) + 1) (Tick l)) ?v1"
    by (simp add: i)
  also note e
  also note f
  finally show ?thesis using up by (simp add: u)
qed

subsection \<open>From one link to the whole state\<close>

lemma run_append:
  "run (xs @ ys) s = (case run xs s of None \<Rightarrow> None | Some s1 \<Rightarrow> run ys s1)"
  by (induction xs arbitrary: s) (auto split: option.splits)

lemma view_step:
  assumes "event_link e = l" and "ch_memory0 (rx_dma l s) = Some (link_array l)"
  shows "map_option (view l) (step e s) = lv_step (capacity l) e (view l s)"
proof (cases e)
  case (Rx k b)
  with assms show ?thesis by (simp add: view_rx)
next
  case (Idle_line k)
  with assms show ?thesis by (simp add: view_idle)
next
  case (Tick k)
  have "timer_interrupt_flag_get (link_timer l) TIMER_INT_FLAG_UP (timer_clock (link_timer l) s) =
        (TIMER_INT_FLAG_UP \<in> tm_flags (lv_timer (lv_clock (view l s))))"
    unfolding view_clock[symmetric]
    by (simp add: timer_interrupt_flag_get_def view_def confirmation_timer_def)
  with Tick assms show ?thesis
    by (simp add: Let_def view_timer_irq view_clock)
next
  case (Rearm k)
  with assms show ?thesis by (simp add: view_rearm)
qed

lemma lv_step_memory0:
  "lv_step cap e v = Some v' \<Longrightarrow> ch_memory0 (lv_dma v') = ch_memory0 (lv_dma v)"
  by (cases e)
     (auto simp add: lv_rx_def lv_idle_def lv_clock_def lv_timer_irq_def lv_rearm_def Let_def
           array_store_def split: if_splits)

lemma view_run:
  assumes "\<forall>e \<in> set es. event_link e = l" and "ch_memory0 (rx_dma l s) = Some (link_array l)"
  shows "map_option (view l) (run es s) = lv_run (capacity l) es (view l s)"
  using assms
proof (induction es arbitrary: s)
  case Nil
  then show ?case by simp
next
  case (Cons e es)
  from Cons.prems have el: "event_link e = l" by simp
  note vs = view_step[OF el Cons.prems(2)]
  show ?case
  proof (cases "step e s")
    case None
    with vs show ?thesis by simp
  next
    case (Some s1)
    with vs have l1: "lv_step (capacity l) e (view l s) = Some (view l s1)" by simp
    from lv_step_memory0[OF l1] Cons.prems(2)
    have "ch_memory0 (rx_dma l s1) = Some (link_array l)" by (simp add: view_def)
    with Cons.IH[of s1] Cons.prems(1)
    have "map_option (view l) (run es s1) = lv_run (capacity l) es (view l s1)" by simp
    with Some l1 show ?thesis by simp
  qed
qed

text \<open>A run of one link that is known on the view exists on the state.\<close>

lemma run_from_view:
  assumes "\<forall>e \<in> set es. event_link e = l" and "ch_memory0 (rx_dma l s) = Some (link_array l)"
    and "lv_run (capacity l) es (view l s) = Some v'"
  shows "\<exists>s'. run es s = Some s' \<and> view l s' = v'"
  using view_run[OF assms(1,2)] assms(3) by (cases "run es s") simp_all

lemma capacity_bound: "0 < capacity l \<and> capacity l < 65536"
  by (cases l) (simp_all add: BSP_USART_RECEIVE_LENGTH_def USART_TERMINAL_RECEIVE_LENGTH_def
      UART4_RECEIVE_LENGTH_def)

lemma view_simps:
  "lv_buff (view l s) = recv_buff l s"
  "lv_length (view l s) = recv_length l s"
  "lv_flag (view l s) = recv_complete_flag l s"
  "lv_dma (view l s) = rx_dma l s"
  "lv_timer (view l s) = confirmation_timer l s"
  "lv_usart (view l s) = usart_flags s (link_usart l)"
  by (simp_all add: view_def)

lemma link_idle_moved: "link_idle l s \<Longrightarrow> moved (capacity l) 0 (view l s)"
  using capacity_bound[of l] by (simp add: link_idle_def configured_def moved_def view_simps)

lemma is_burst_map_Rx: "is_burst l (map (Rx l) bs)"
  by (induction bs) simp_all

lemma burst_bytes_map_Rx: "burst_bytes (map (Rx l) bs) = bs"
  by (induction bs) simp_all

lemma burst_ticks_map_Rx: "burst_ticks (map (Rx l) bs) = 0"
  by (induction bs) simp_all

lemma is_burst_links: "is_burst l es \<Longrightarrow> \<forall>e \<in> set es. event_link e = l"
  by (induction l es rule: is_burst.induct) simp_all

subsection \<open>A burst followed by silence\<close>

text \<open>
  A burst, an idle-line event and the debounce interval: the frame completes.  Until the
  last tick of the interval the completion flag is as it was.
\<close>

lemma lv_burst_frame:
  assumes m: "moved cap n v" and bu: "is_burst l es"
    and le: "n + length (burst_bytes es) \<le> cap" and pos: "0 < n + length (burst_bytes es)"
    and cap: "cap < 65536" and up: "TIMER_INT_FLAG_UP \<notin> tm_flags (lv_timer v)"
    and tq: "tm_en (lv_timer v) \<longrightarrow> unat (tm_cnt (lv_timer v)) + burst_ticks es \<le> unat (tm_car (lv_timer v))"
    and sp: "tm_single_pulse (lv_timer v)"
  shows "\<exists>v'. lv_run cap (es @ Idle_line l # replicate (unat (tm_car (lv_timer v)) + 1) (Tick l)) v = Some v' \<and>
           lv_flag v' = 1 \<and> lv_length v' = of_nat (n + length (burst_bytes es)) \<and>
           lv_buff v' = (take n (lv_buff v) @ burst_bytes es @
                           drop (n + length (burst_bytes es)) (lv_buff v))[n + length (burst_bytes es) := 0] \<and>
           moved cap (n + length (burst_bytes es)) v' \<and>
           lv_timer v' = (lv_timer v)\<lparr>tm_cnt := 0, tm_en := False\<rparr>"
    and "\<exists>v'. lv_run cap (es @ Idle_line l # replicate (unat (tm_car (lv_timer v))) (Tick l)) v = Some v' \<and>
           lv_flag v' = lv_flag v"
proof -
  let ?k = "n + length (burst_bytes es)"
  from lv_burst[OF m bu le cap up tq]
  obtain v1 where r1: "lv_run cap es v = Some v1" and m1: "moved cap ?k v1"
    and b1: "lv_buff v1 = take n (lv_buff v) @ burst_bytes es @ drop ?k (lv_buff v)"
    and f1: "lv_flag v1 = lv_flag v"
    and t1: "lv_timer v1 = (if tm_en (lv_timer v)
                          then (lv_timer v)\<lparr>tm_cnt := tm_cnt (lv_timer v) + of_nat (burst_ticks es)\<rparr>
                          else lv_timer v)"
    by blast
  from t1 have car: "tm_car (lv_timer v1) = tm_car (lv_timer v)"
    and up1: "TIMER_INT_FLAG_UP \<notin> tm_flags (lv_timer v1)"
    and sp1: "tm_single_pulse (lv_timer v1)"
    and tt: "(lv_timer v1)\<lparr>tm_cnt := 0, tm_en := False\<rparr> = (lv_timer v)\<lparr>tm_cnt := 0, tm_en := False\<rparr>"
    using up sp by (simp_all split: if_splits)
  from m1 pos le have c1: "counted cap ?k v1" by (rule moved_counted)
  from m1 have len1: "length (lv_buff v1) = cap + 1" by (simp add: moved_def)
  let ?vF = "v1\<lparr>lv_usart := lv_usart v1 - {USART_INT_FLAG_IDLE},
             lv_length := of_nat ?k, lv_buff := (lv_buff v1)[?k := 0], lv_flag := 1,
             lv_timer := (lv_timer v1)\<lparr>tm_cnt := 0, tm_en := False\<rparr>\<rparr>"
  let ?vP = "v1\<lparr>lv_usart := lv_usart v1 - {USART_INT_FLAG_IDLE},
             lv_length := (if ?k < cap then of_nat ?k else 0),
             lv_timer := (lv_timer v1)\<lparr>tm_cnt := tm_car (lv_timer v1), tm_en := True\<rparr>\<rparr>"
  have fr: "lv_run cap (es @ Idle_line l # replicate (unat (tm_car (lv_timer v)) + 1) (Tick l)) v = Some ?vF"
    using lv_frame[OF c1 cap up1 sp1 len1, of l]
    by (simp only: lv_run_append r1 option.case car)
  have pe: "lv_run cap (es @ Idle_line l # replicate (unat (tm_car (lv_timer v))) (Tick l)) v = Some ?vP"
    using lv_frame_pending[OF c1 cap up1, of l]
    by (simp only: lv_run_append r1 option.case car)
  have mF: "moved cap ?k ?vF" using m1 by (simp add: moved_def)
  show "\<exists>v'. lv_run cap (es @ Idle_line l # replicate (unat (tm_car (lv_timer v)) + 1) (Tick l)) v = Some v' \<and>
           lv_flag v' = 1 \<and> lv_length v' = of_nat ?k \<and>
           lv_buff v' = (take n (lv_buff v) @ burst_bytes es @ drop ?k (lv_buff v))[?k := 0] \<and>
           moved cap ?k v' \<and>
           lv_timer v' = (lv_timer v)\<lparr>tm_cnt := 0, tm_en := False\<rparr>"
    unfolding fr using mF by (simp add: b1 tt)
  show "\<exists>v'. lv_run cap (es @ Idle_line l # replicate (unat (tm_car (lv_timer v))) (Tick l)) v = Some v' \<and>
           lv_flag v' = lv_flag v"
    unfolding pe by (simp add: f1)
qed

lemma view_step_quiet:
  assumes "event_link e = l" and "\<forall>k b. e \<noteq> Rx k b"
  shows "map_option (view l) (step e s) = lv_step (capacity l) e (view l s)"
proof (cases e)
  case (Rx k b)
  with assms show ?thesis by simp
next
  case (Idle_line k)
  with assms show ?thesis by (simp add: view_idle)
next
  case (Tick k)
  have "timer_interrupt_flag_get (link_timer l) TIMER_INT_FLAG_UP (timer_clock (link_timer l) s) =
        (TIMER_INT_FLAG_UP \<in> tm_flags (lv_timer (lv_clock (view l s))))"
    unfolding view_clock[symmetric]
    by (simp add: timer_interrupt_flag_get_def view_def confirmation_timer_def)
  with Tick assms show ?thesis
    by (simp add: Let_def view_timer_irq view_clock)
next
  case (Rearm k)
  with assms show ?thesis by (simp add: view_rearm)
qed

lemma view_run_quiet:
  assumes "\<forall>e \<in> set es. event_link e = l \<and> (\<forall>k b. e \<noteq> Rx k b)"
  shows "map_option (view l) (run es s) = lv_run (capacity l) es (view l s)"
  using assms
proof (induction es arbitrary: s)
  case Nil
  then show ?case by simp
next
  case (Cons e es)
  from Cons.prems have "event_link e = l" and "\<forall>k b. e \<noteq> Rx k b" by simp_all
  note vs = view_step_quiet[OF this, of s]
  show ?case
  proof (cases "step e s")
    case None
    with vs show ?thesis by simp
  next
    case (Some s1)
    with vs have l1: "lv_step (capacity l) e (view l s) = Some (view l s1)" by simp
    from Cons.IH[of s1] Cons.prems
    have "map_option (view l) (run es s1) = lv_run (capacity l) es (view l s1)" by simp
    with Some l1 show ?thesis by simp
  qed
qed

lemma run_from_view_quiet:
  assumes "\<forall>e \<in> set es. event_link e = l \<and> (\<forall>k b. e \<noteq> Rx k b)"
    and "lv_run (capacity l) es (view l s) = Some v'"
  shows "\<exists>s'. run es s = Some s' \<and> view l s' = v'"
  using view_run_quiet[OF assms(1), of s] assms(2) by (cases "run es s") simp_all

subsection \<open>The invariant and the independence of the links\<close>

lemma link_inv_view: "link_inv l s = lv_inv (link_array l) (capacity l) (view l s)"
  by (auto simp add: link_inv_def configured_def lv_inv_def view_simps)

lemma lv_inv_rx:
  assumes i: "lv_inv r cap v" and cap: "cap < 65536" and s: "lv_rx b v = Some v'"
  shows "lv_inv r cap v'"
proof (cases "\<not> ch_en (lv_dma v) \<or> ch_cnt (lv_dma v) = 0")
  case True
  with s i show ?thesis by (simp add: lv_rx_def Let_def)
next
  case False
  then have nz: "ch_cnt (lv_dma v) \<noteq> 0" by simp
  define d where "d = ch_cnt (lv_dma v) - 1"
  from i have "unat (ch_cnt (lv_dma v)) \<le> cap" by (simp add: lv_inv_def)
  with unat_minus_one[OF nz] have du: "unat d \<le> cap" unfolding d_def by linarith
  from cap have nu: "unat (of_nat cap :: u32) \<le> cap" by (simp add: w32_unat)
  from False s obtain a where a: "array_store (lv_buff v) (ch_offset (lv_dma v)) b = Some a"
    and v': "v' = v\<lparr>lv_buff := a, lv_dma :=
                   (if d = 0
                    then (if ch_circular (lv_dma v)
                          then (lv_dma v)\<lparr>ch_cnt := ch_number (lv_dma v), ch_offset := 0,
                                 ch_flags := insert DMA_FLAG_FTF (ch_flags (lv_dma v))\<rparr>
                          else (lv_dma v)\<lparr>ch_cnt := 0, ch_en := False, ch_offset := ch_offset (lv_dma v) + 1,
                                 ch_flags := insert DMA_FLAG_FTF (ch_flags (lv_dma v))\<rparr>)
                    else (lv_dma v)\<lparr>ch_cnt := d, ch_offset := ch_offset (lv_dma v) + 1\<rparr>)\<rparr>"
    by (auto simp add: lv_rx_def Let_def d_def)
  from a have la: "length a = length (lv_buff v)"
    by (auto simp add: array_store_def split: if_splits)
  show ?thesis
    unfolding v' using i la du nu by (simp add: lv_inv_def)
qed

lemma lv_inv_idle:
  assumes i: "lv_inv r cap v" and cap: "cap < 65536"
  shows "lv_inv r cap (lv_idle cap v)"
proof -
  from i have "unat (ch_cnt (lv_dma v)) \<le> cap" by (simp add: lv_inv_def)
  from w_len_bound[OF this cap]
  have "unat (ucast ((of_nat cap :: u32) - ch_cnt (lv_dma v)) :: u16) \<le> cap" by simp
  with i show ?thesis by (simp add: lv_inv_def lv_idle_def Let_def)
qed

lemma lv_inv_clock: "lv_inv r cap v \<Longrightarrow> lv_inv r cap (lv_clock v)"
  by (simp add: lv_inv_def lv_clock_def Let_def)

lemma lv_inv_timer_irq:
  assumes i: "lv_inv r cap v" and cap: "cap < 65536" and s: "lv_timer_irq cap v = Some v'"
  shows "lv_inv r cap v'"
proof -
  from cap have "unat (of_nat cap :: u16) \<le> cap" by (simp add: w16_unat)
  with i s show ?thesis
    by (auto simp add: lv_inv_def lv_timer_irq_def array_store_def Let_def split: if_splits)
qed

lemma lv_inv_rearm: "cap < 65536 \<Longrightarrow> lv_inv r cap v \<Longrightarrow> lv_inv r cap (lv_rearm cap v)"
  by (simp add: lv_inv_def lv_rearm_def w32_unat)

lemma lv_inv_step:
  assumes "lv_inv r cap v" and "cap < 65536" and "lv_step cap e v = Some v'"
  shows "lv_inv r cap v'"
proof (cases e)
  case (Rx k b)
  with assms show ?thesis by (simp add: lv_inv_rx)
next
  case (Idle_line k)
  with assms show ?thesis by (auto simp add: lv_inv_idle)
next
  case (Tick k)
  with assms lv_inv_clock[OF assms(1)] show ?thesis
    by (auto simp add: Let_def lv_inv_timer_irq split: if_splits)
next
  case (Rearm k)
  with assms show ?thesis by (auto simp add: lv_inv_rearm)
qed

text \<open>An event of one link leaves the view of every other link as it is.\<close>

lemma step_other_rx:
  assumes "k \<noteq> l" and "ch_memory0 (rx_dma k s) = Some (link_array k)"
    and "dma_transfer DMA0 (link_dma_channel k) b s = Some s'"
  shows "view l s' = view l s"
  using assms
  by (cases k; cases l)
     (auto simp add: dma_transfer_def recv_array_store_def array_store_def obs_defs Let_def
           split: if_splits)

lemma step_other_idle:
  "k \<noteq> l \<Longrightarrow> view l (usart_irq k (usart_idle_detect (link_usart k) s)) = view l s"
  by (cases k; cases l)
     (simp_all add: BSP_USART_IRQHandler_def USART1_IRQHandler_def UART4_IRQHandler_def
        usart_idle_detect_def periph_defs obs_defs Let_def)

lemma step_other_clock: "k \<noteq> l \<Longrightarrow> view l (timer_clock (link_timer k) s) = view l s"
  by (cases k; cases l) (simp_all add: timer_clock_def obs_defs Let_def)

lemma step_other_timer_irq: "k \<noteq> l \<Longrightarrow> timer_irq k s = Some s' \<Longrightarrow> view l s' = view l s"
  by (cases k; cases l)
     (auto simp add: TIMER5_DAC_UDR_IRQHandler_def TIMER6_IRQHandler_def TIMER15_IRQHandler_def
        recv_array_store_def array_store_def periph_defs obs_defs Let_def split: if_splits)

lemma step_other_rearm: "k \<noteq> l \<Longrightarrow> view l (rx_dma_receive_reset k s) = view l s"
  by (cases k; cases l)
     (simp_all add: usart_rx_dma_receive_reset_def usart_terminal_rx_dma_receive_reset_def
        uart4_rx_dma_receive_reset_def periph_defs obs_defs Let_def)

lemma step_other:
  assumes "event_link e \<noteq> l"
    and "(\<forall>k b. e \<noteq> Rx k b) \<or> ch_memory0 (rx_dma (event_link e) s) = Some (link_array (event_link e))"
    and "step e s = Some s'"
  shows "view l s' = view l s"
proof (cases e)
  case (Rx k b)
  with assms show ?thesis by (auto intro: step_other_rx)
next
  case (Idle_line k)
  with assms show ?thesis by (auto simp add: step_other_idle)
next
  case (Tick k)
  with assms have kl: "k \<noteq> l" by simp
  from Tick assms(3) show ?thesis
    using step_other_clock[OF kl, of s] step_other_timer_irq[OF kl, of "timer_clock (link_timer k) s" s']
    by (auto simp add: Let_def split: if_splits)
next
  case (Rearm k)
  with assms show ?thesis by (auto simp add: step_other_rearm)
qed

subsection \<open>Two bursts and the completion flag\<close>

lemma lv_flag_persist_step:
  assumes "lv_step cap e v = Some v'" and "\<forall>k. e \<noteq> Rearm k" and "lv_flag v \<noteq> 0"
  shows "lv_flag v' \<noteq> 0"
  using assms
  by (cases e)
     (auto simp add: lv_rx_def lv_idle_def lv_clock_def lv_timer_irq_def Let_def
           split: if_splits)

lemma lv_flag_persist:
  assumes "lv_run cap es v = Some v'" and "\<forall>k. Rearm k \<notin> set es" and "lv_flag v \<noteq> 0"
  shows "lv_flag v' \<noteq> 0"
  using assms
proof (induction es arbitrary: v)
  case Nil
  then show ?case by simp
next
  case (Cons e es)
  from Cons.prems(1) obtain v1 where s1: "lv_step cap e v = Some v1"
    and r: "lv_run cap es v1 = Some v'"
    by (auto split: option.splits)
  from Cons.prems(2) have "\<forall>k. e \<noteq> Rearm k" by auto
  from lv_flag_persist_step[OF s1 this Cons.prems(3)] have "lv_flag v1 \<noteq> 0" .
  moreover from Cons.prems(2) have "\<forall>k. Rearm k \<notin> set es" by simp
  ultimately show ?case using r Cons.IH by blast
qed

text \<open>If the flag is down after a run without re-arm, it was down after every prefix.\<close>

lemma lv_flag_down_before:
  assumes "lv_run cap (p @ q) v = Some v'" and "lv_flag v' = 0" and "\<forall>k. Rearm k \<notin> set q"
  shows "\<exists>v1. lv_run cap p v = Some v1 \<and> lv_flag v1 = 0"
proof -
  from assms(1) obtain v1 where p: "lv_run cap p v = Some v1" and q: "lv_run cap q v1 = Some v'"
    by (auto simp add: lv_run_append split: option.splits)
  from lv_flag_persist[OF q assms(3)] assms(2) have "lv_flag v1 = 0" by blast
  with p show ?thesis by blast
qed

lemma is_burst_no_rearm: "is_burst l es \<Longrightarrow> Rearm k \<notin> set es"
  by (induction l es rule: is_burst.induct) simp_all

text \<open>Two bursts with an idle-line event between them, on one link.\<close>

lemma lv_two_bursts:
  assumes m: "moved cap 0 v" and en: "\<not> tm_en (lv_timer v)"
    and up: "TIMER_INT_FLAG_UP \<notin> tm_flags (lv_timer v)" and sp: "tm_single_pulse (lv_timer v)"
    and cap: "cap < 65536" and cpos: "0 < cap"
    and bu1: "is_burst l b1" and bu2: "is_burst l b2"
    and le: "length (burst_bytes b1) + length (burst_bytes b2) \<le> cap"
    and pos: "0 < length (burst_bytes b1) + length (burst_bytes b2)"
    and t: "burst_ticks b2 \<le> unat (tm_car (lv_timer v))"
  shows "\<exists>v'. lv_run cap (b1 @ Idle_line l # b2 @ Idle_line l #
                  replicate (unat (tm_car (lv_timer v)) + 1) (Tick l)) v = Some v' \<and>
           lv_flag v' = 1 \<and>
           lv_length v' = of_nat (length (burst_bytes b1) + length (burst_bytes b2)) \<and>
           lv_buff v' = (burst_bytes b1 @ burst_bytes b2 @
               drop (length (burst_bytes b1) + length (burst_bytes b2)) (lv_buff v))
               [length (burst_bytes b1) + length (burst_bytes b2) := 0]"
    and "\<exists>v'. lv_run cap (b1 @ Idle_line l # b2 @ Idle_line l #
                  replicate (unat (tm_car (lv_timer v))) (Tick l)) v = Some v' \<and>
           lv_flag v' = lv_flag v"
proof -
  let ?k = "length (burst_bytes b1)" and ?m = "length (burst_bytes b2)"
  let ?T = "unat (tm_car (lv_timer v))"
  from le have le1: "0 + ?k \<le> cap" by simp
  from en have tq1: "tm_en (lv_timer v) \<longrightarrow>
      unat (tm_cnt (lv_timer v)) + burst_ticks b1 \<le> unat (tm_car (lv_timer v))" by simp
  from lv_burst[OF m bu1 le1 cap up tq1]
  obtain v1 where r1: "lv_run cap b1 v = Some v1" and m1: "moved cap ?k v1"
    and b1: "lv_buff v1 = burst_bytes b1 @ drop ?k (lv_buff v)"
    and f1: "lv_flag v1 = lv_flag v" and t1: "lv_timer v1 = lv_timer v"
    using en by auto
  define v2 where "v2 = lv_idle cap v1"
  have i2: "lv_step cap (Idle_line l) v1 = Some v2" by (simp add: v2_def)
  have v2: "moved cap ?k v2 \<and> lv_buff v2 = lv_buff v1 \<and> lv_flag v2 = lv_flag v1 \<and>
      tm_car (lv_timer v2) = tm_car (lv_timer v) \<and> tm_single_pulse (lv_timer v2) \<and>
      TIMER_INT_FLAG_UP \<notin> tm_flags (lv_timer v2) \<and>
      (tm_en (lv_timer v2) \<longrightarrow> tm_cnt (lv_timer v2) = 0)"
  proof (cases "?k = 0")
    case True
    with m1 cpos have "ch_cnt (lv_dma v1) = of_nat cap" and "DMA_FLAG_FTF \<notin> ch_flags (lv_dma v1)"
      by (simp_all add: moved_def)
    from lv_idle_empty[OF this] m1 t1 en up sp show ?thesis
      by (simp add: v2_def moved_def)
  next
    case False
    with le have "0 < ?k" and "?k \<le> cap" by simp_all
    with m1 have "counted cap ?k v1" by (intro moved_counted)
    from lv_idle_counted[OF this cap] m1 t1 up sp show ?thesis
      by (simp add: v2_def moved_def)
  qed
  then have m2: "moved cap ?k v2" and up2: "TIMER_INT_FLAG_UP \<notin> tm_flags (lv_timer v2)"
    and sp2: "tm_single_pulse (lv_timer v2)" and car2: "tm_car (lv_timer v2) = tm_car (lv_timer v)"
    and bf2: "lv_buff v2 = lv_buff v1" and f2: "lv_flag v2 = lv_flag v1"
    and tq2: "tm_en (lv_timer v2) \<longrightarrow>
      unat (tm_cnt (lv_timer v2)) + burst_ticks b2 \<le> unat (tm_car (lv_timer v2))"
    using t by auto
  note fr = lv_burst_frame[OF m2 bu2 le pos cap up2 tq2 sp2, unfolded car2]
  have split: "lv_run cap (b1 @ Idle_line l # rest) v = lv_run cap rest v2" for rest
    by (simp only: lv_run_append r1 option.case lv_run.simps i2)
  have bb: "take ?k (lv_buff v2) @ burst_bytes b2 @ drop (?k + ?m) (lv_buff v2) =
        burst_bytes b1 @ burst_bytes b2 @ drop (?k + ?m) (lv_buff v)"
    by (simp add: bf2 b1 add.commute)
  show "\<exists>v'. lv_run cap (b1 @ Idle_line l # b2 @ Idle_line l # replicate (?T + 1) (Tick l)) v = Some v' \<and>
           lv_flag v' = 1 \<and> lv_length v' = of_nat (?k + ?m) \<and>
           lv_buff v' = (burst_bytes b1 @ burst_bytes b2 @ drop (?k + ?m) (lv_buff v))[?k + ?m := 0]"
    using fr(1) unfolding split bb by blast
  show "\<exists>v'. lv_run cap (b1 @ Idle_line l # b2 @ Idle_line l # replicate ?T (Tick l)) v = Some v' \<and>
           lv_flag v' = lv_flag v"
    using fr(2) unfolding split f2 f1 by blast
qed

subsection \<open>The claims\<close>

lemmas init_defs = initial_state_def reset_state_def usart_init_def usart_terminal_init_def uart4_init_def
  usart_rx_dma_config_def usart_terminal_rx_dma_config_def uart4_rx_dma_config_def
  timer_base5_config_def timer_base6_config_def timer_general15_config_def
  dma_deinit_def dma_single_data_mode_init_def timer_deinit_def timer_init_def
  timer_single_pulse_mode_config_def

lemma initial_idle: "link_idle l initial_state"
  by (cases l) (simp_all add: link_idle_def configured_def rx_dma_def confirmation_timer_def
      init_defs periph_defs Let_def)

lemma initial_flag: "recv_complete_flag l initial_state = 0"
  by (cases l) (simp_all add: init_defs periph_defs Let_def)

lemma initial_debounce: "debounce_ticks l initial_state = 1000"
  by (cases l) (simp_all add: debounce_ticks_def confirmation_timer_def init_defs periph_defs Let_def)

text \<open>The life of one frame, from the idle link to the completion flag.\<close>

lemma burst_then_silence:
  assumes idle: "link_idle l s" and ne: "bs \<noteq> []" and le: "length bs \<le> capacity l"
  shows "\<exists>s'. run (map (Rx l) bs @ Idle_line l # replicate (debounce_ticks l s) (Tick l)) s = Some s' \<and>
           recv_complete_flag l s' = 1 \<and> unat (recv_length l s') = length bs \<and>
           take (length bs) (recv_buff l s') = bs \<and> recv_buff l s' ! length bs = 0"
proof -
  let ?cap = "capacity l" and ?v = "view l s"
  let ?tr = "map (Rx l) bs @ Idle_line l # replicate (debounce_ticks l s) (Tick l)"
  from capacity_bound[of l] have cap: "?cap < 65536" by simp
  from idle have m: "moved ?cap 0 ?v" by (rule link_idle_moved)
  from idle have mem: "ch_memory0 (rx_dma l s) = Some (link_array l)"
    and up: "TIMER_INT_FLAG_UP \<notin> tm_flags (lv_timer ?v)"
    and en: "\<not> tm_en (lv_timer ?v)" and sp: "tm_single_pulse (lv_timer ?v)"
    and len: "length (recv_buff l s) = ?cap + 1"
    by (simp_all add: link_idle_def configured_def view_simps)
  have T: "debounce_ticks l s = unat (tm_car (lv_timer ?v)) + 1"
    by (simp add: debounce_ticks_def view_simps)
  from le ne have le': "0 + length (burst_bytes (map (Rx l) bs)) \<le> ?cap"
    and pos: "0 < 0 + length (burst_bytes (map (Rx l) bs))"
    by (simp_all add: burst_bytes_map_Rx)
  from en have tq: "tm_en (lv_timer ?v) \<longrightarrow>
      unat (tm_cnt (lv_timer ?v)) + burst_ticks (map (Rx l) bs) \<le> unat (tm_car (lv_timer ?v))"
    by simp
  from lv_burst_frame(1)[OF m is_burst_map_Rx le' pos cap up tq sp]
  obtain v' where r: "lv_run ?cap ?tr ?v = Some v'" and f: "lv_flag v' = 1"
    and n: "lv_length v' = of_nat (length bs)"
    and b: "lv_buff v' = (bs @ drop (length bs) (recv_buff l s))[length bs := 0]"
    unfolding T by (auto simp add: burst_bytes_map_Rx view_simps)
  have ev: "\<forall>e \<in> set ?tr. event_link e = l" by auto
  from run_from_view[OF ev mem r]
  obtain s' where rs: "run ?tr s = Some s'" and vs: "view l s' = v'" by blast
  note f n b
  note obs = this[unfolded vs[symmetric] view_simps]
  from obs(1) have "recv_complete_flag l s' = 1" .
  moreover from obs(2) le cap have "unat (recv_length l s') = length bs"
    using w16_unat[of "length bs"] by simp
  moreover note bb = obs(3)
  from bb have "take (length bs) (recv_buff l s') = bs" by simp
  moreover from bb le len have "recv_buff l s' ! length bs = 0"
    by simp
  ultimately show ?thesis using rs by blast
qed

text \<open>
  C1.  For every k with 0 < k <= C: when the transport moves exactly k bytes into the
  empty receive buffer of a link, the idle-line event fires and the confirmation timer
  then runs its whole interval with no further byte and no further idle event, the
  completion flag is 1, the received length is k and the k bytes are in the buffer,
  followed by the terminator.
\<close>

theorem frame_after_silence:
  assumes "link_idle l s" and "bs \<noteq> []" and "length bs \<le> capacity l"
  shows "\<exists>s'. run (map (Rx l) bs @ Idle_line l # replicate (debounce_ticks l s) (Tick l)) s = Some s' \<and>
           recv_complete_flag l s' = 1 \<and> unat (recv_length l s') = length bs \<and>
           take (length bs) (recv_buff l s') = bs \<and> recv_buff l s' ! length bs = 0"
  using assms by (rule burst_then_silence)

theorem frame_after_silence_witness:
  "link_idle Host_link initial_state \<and> [72, 105 :: u8] \<noteq> [] \<and>
   length [72, 105 :: u8] \<le> capacity Host_link \<and>
   (\<exists>s'. run (map (Rx Host_link) [72, 105] @ Idle_line Host_link #
               replicate (debounce_ticks Host_link initial_state) (Tick Host_link)) initial_state = Some s' \<and>
      recv_complete_flag Host_link s' = 1 \<and> unat (recv_length Host_link s') = length [72, 105 :: u8] \<and>
      take (length [72, 105 :: u8]) (recv_buff Host_link s') = [72, 105] \<and>
      recv_buff Host_link s' ! length [72, 105 :: u8] = 0)"
proof -
  have h1: "link_idle Host_link initial_state" by (rule initial_idle)
  have h2: "[72, 105 :: u8] \<noteq> []" by simp
  have h3: "length [72, 105 :: u8] \<le> capacity Host_link"
    by (simp add: BSP_USART_RECEIVE_LENGTH_def)
  from frame_after_silence[OF h1 h2 h3] h1 h2 h3 show ?thesis by blast
qed

lemma subsystem_inv_all: "subsystem_inv s = (\<forall>l. link_inv l s)"
proof
  assume a: "subsystem_inv s"
  show "\<forall>l. link_inv l s"
  proof
    fix l show "link_inv l s" using a by (cases l) (simp_all add: subsystem_inv_def)
  qed
next
  assume "\<forall>l. link_inv l s"
  then show "subsystem_inv s" by (simp add: subsystem_inv_def)
qed

lemma link_inv_step:
  assumes inv: "subsystem_inv s" and st: "step e s = Some s'"
  shows "link_inv l s'"
proof (cases "event_link e = l")
  case True
  from inv have li: "link_inv l s" by (simp add: subsystem_inv_all)
  then have mem: "ch_memory0 (rx_dma l s) = Some (link_array l)"
    by (simp add: link_inv_def configured_def)
  from view_step[OF True mem] st
  have ls: "lv_step (capacity l) e (view l s) = Some (view l s')" by simp
  from li have "lv_inv (link_array l) (capacity l) (view l s)" by (simp only: link_inv_view)
  moreover from capacity_bound[of l] have "capacity l < 65536" by simp
  ultimately have "lv_inv (link_array l) (capacity l) (view l s')" using ls by (rule lv_inv_step)
  then show ?thesis by (simp only: link_inv_view)
next
  case False
  from inv have "link_inv (event_link e) s" by (simp add: subsystem_inv_all)
  then have "ch_memory0 (rx_dma (event_link e) s) = Some (link_array (event_link e))"
    by (simp add: link_inv_def configured_def)
  then have "(\<forall>k b. e \<noteq> Rx k b) \<or>
      ch_memory0 (rx_dma (event_link e) s) = Some (link_array (event_link e))" by (rule disjI2)
  from step_other[OF False this st] have "view l s' = view l s" .
  moreover from inv have "link_inv l s" by (simp add: subsystem_inv_all)
  ultimately show ?thesis by (simp only: link_inv_view)
qed

lemma subsystem_inv_step:
  assumes "subsystem_inv s" and "step e s = Some s'"
  shows "subsystem_inv s'"
  unfolding subsystem_inv_def
  by (intro conjI link_inv_step[OF assms])

lemma subsystem_inv_run: "subsystem_inv s \<Longrightarrow> run es s = Some s' \<Longrightarrow> subsystem_inv s'"
proof (induction es arbitrary: s)
  case Nil
  then show ?case by simp
next
  case (Cons e es)
  from Cons.prems(2) obtain s1 where s1: "step e s = Some s1" and r: "run es s1 = Some s'"
    by (auto split: option.splits)
  from Cons.prems(1) s1 have "subsystem_inv s1" by (rule subsystem_inv_step)
  then show ?case using r by (rule Cons.IH)
qed

lemma initial_link_inv: "link_inv l initial_state"
proof -
  from initial_idle[of l] have cfg: "configured l initial_state"
    and cnt: "ch_cnt (rx_dma l initial_state) = of_nat (capacity l)"
    by (simp_all add: link_idle_def)
  from capacity_bound[of l] have "unat (of_nat (capacity l) :: u32) = capacity l"
    by (intro w32_unat) simp
  then have c: "unat (ch_cnt (rx_dma l initial_state)) \<le> capacity l" by (simp only: cnt)
  have "recv_length l initial_state = 0"
    by (cases l) (simp_all add: init_defs periph_defs Let_def)
  then have "unat (recv_length l initial_state) \<le> capacity l" by simp
  with cfg c show ?thesis by (simp only: link_inv_def simp_thms)
qed

lemma initial_inv: "subsystem_inv initial_state"
  unfolding subsystem_inv_def by (intro conjI initial_link_inv)

text \<open>Hence the invariant holds in every state the initialised subsystem can reach.\<close>

lemma reachable_inv: "run es initial_state = Some s \<Longrightarrow> subsystem_inv s"
  using initial_inv by (rule subsystem_inv_run)

text \<open>
  C7.  Every operation keeps the received length of every link between 0 and C: in a
  state where each link is configured and the remaining counter of its channel is at most
  C, any event (a byte moved, an idle-line event, a timer tick with its finalisation, a
  re-arm) on any link leads to such a state again, with each received length at most C.
\<close>

theorem received_length_in_range:
  assumes "subsystem_inv s" and "step e s = Some s'"
  shows "subsystem_inv s' \<and> unat (recv_length l s') \<le> capacity l"
proof -
  from assms have "subsystem_inv s'" by (rule subsystem_inv_step)
  moreover from assms have "link_inv l s'" by (rule link_inv_step)
  ultimately show ?thesis by (simp add: link_inv_def)
qed

theorem received_length_in_range_witness:
  "subsystem_inv initial_state \<and>
   step (Idle_line Host_link) initial_state =
     Some (BSP_USART_IRQHandler (usart_idle_detect USART0 initial_state)) \<and>
   subsystem_inv (BSP_USART_IRQHandler (usart_idle_detect USART0 initial_state)) \<and>
   unat (recv_length Host_link (BSP_USART_IRQHandler (usart_idle_detect USART0 initial_state)))
     \<le> capacity Host_link"
proof -
  have h1: "subsystem_inv initial_state" by (rule initial_inv)
  have h2: "step (Idle_line Host_link) initial_state =
     Some (BSP_USART_IRQHandler (usart_idle_detect USART0 initial_state))" by simp
  from received_length_in_range[OF h1 h2, of Host_link] h1 h2 show ?thesis by blast
qed

text \<open>The state after exactly C bytes on a link, from the initialised state.\<close>

lemma full_buffer_state:
  "\<exists>s. run (map (Rx l) (replicate (capacity l) b)) initial_state = Some s \<and>
       configured l s \<and> ch_cnt (rx_dma l s) = of_nat (capacity l) \<and>
       DMA_FLAG_FTF \<in> ch_flags (rx_dma l s) \<and>
       TIMER_INT_FLAG_UP \<notin> tm_flags (confirmation_timer l s)"
proof -
  let ?cap = "capacity l" and ?v = "view l initial_state"
  let ?es = "map (Rx l) (replicate ?cap b)"
  note idle = initial_idle[of l]
  from capacity_bound[of l] have cap: "?cap < 65536" by simp
  from idle have m: "moved ?cap 0 ?v" by (rule link_idle_moved)
  from idle have mem: "ch_memory0 (rx_dma l initial_state) = Some (link_array l)"
    and up: "TIMER_INT_FLAG_UP \<notin> tm_flags (lv_timer ?v)"
    and en: "\<not> tm_en (lv_timer ?v)"
    by (simp_all add: link_idle_def configured_def view_simps)
  have bb: "burst_bytes ?es = replicate ?cap b" by (rule burst_bytes_map_Rx)
  have le: "0 + length (burst_bytes ?es) \<le> ?cap" unfolding bb by simp
  from en have tq: "tm_en (lv_timer ?v) \<longrightarrow>
      unat (tm_cnt (lv_timer ?v)) + burst_ticks ?es \<le> unat (tm_car (lv_timer ?v))"
    by simp
  from lv_burst[OF m is_burst_map_Rx le cap up tq]
  obtain v' where r: "lv_run ?cap ?es ?v = Some v'" and m': "moved ?cap ?cap v'"
    and t': "lv_timer v' = lv_timer ?v"
    unfolding bb using en by auto
  have ev: "\<forall>e \<in> set ?es. event_link e = l" by auto
  from run_from_view[OF ev mem r]
  obtain s' where rs: "run ?es initial_state = Some s'" and vs: "view l s' = v'" by blast
  from m' t' up have "ch_cnt (lv_dma (view l s')) = of_nat ?cap"
    and "DMA_FLAG_FTF \<in> ch_flags (lv_dma (view l s'))"
    and "TIMER_INT_FLAG_UP \<notin> tm_flags (lv_timer (view l s'))"
    unfolding vs by (simp_all add: moved_def)
  note obs = this[unfolded view_simps]
  from subsystem_inv_run[OF initial_inv rs] have "link_inv l s'" by (simp add: subsystem_inv_all)
  then have "configured l s'" by (simp add: link_inv_def)
  with obs rs show ?thesis by blast
qed

text \<open>
  C2.  When exactly C bytes have been moved, the circular counter has reloaded to C and
  the full-transfer flag is up.  The length the idle handler computes is then 0, as for an
  empty buffer; after the debounce interval the received length is C, not 0, the
  completion flag is 1 and the terminator is at index C.
\<close>

theorem full_buffer_not_empty:
  assumes cfg: "configured l s"
    and cnt: "ch_cnt (rx_dma l s) = of_nat (capacity l)"
    and ftf: "DMA_FLAG_FTF \<in> ch_flags (rx_dma l s)"
    and up: "TIMER_INT_FLAG_UP \<notin> tm_flags (confirmation_timer l s)"
  shows "recv_length l (usart_irq l (usart_idle_detect (link_usart l) s)) = 0 \<and>
         (\<exists>s'. run (Idle_line l # replicate (debounce_ticks l s) (Tick l)) s = Some s' \<and>
            unat (recv_length l s') = capacity l \<and> recv_length l s' \<noteq> 0 \<and>
            recv_complete_flag l s' = 1 \<and>
            recv_buff l s' = (recv_buff l s)[capacity l := 0])"
proof -
  let ?cap = "capacity l" and ?v = "view l s"
  let ?tr = "Idle_line l # replicate (debounce_ticks l s) (Tick l)"
  from capacity_bound[of l] have cap: "?cap < 65536" and pos: "0 < ?cap" by simp_all
  from cnt ftf pos have c: "counted ?cap ?cap ?v" by (simp add: counted_def view_simps)
  from cfg have sp: "tm_single_pulse (lv_timer ?v)" and len: "length (lv_buff ?v) = ?cap + 1"
    by (simp_all add: configured_def view_simps)
  from up have up': "TIMER_INT_FLAG_UP \<notin> tm_flags (lv_timer ?v)" by (simp add: view_simps)
  have T: "debounce_ticks l s = unat (tm_car (lv_timer ?v)) + 1"
    by (simp add: debounce_ticks_def view_simps)
  have "lv_length (lv_idle ?cap ?v) = 0"
    using lv_idle_counted[OF c cap] by simp
  then have first: "recv_length l (usart_irq l (usart_idle_detect (link_usart l) s)) = 0"
    unfolding view_idle[symmetric] view_simps .
  note r = lv_frame[OF c cap up' sp len, of l, folded T]
  have ev: "\<forall>e \<in> set ?tr. event_link e = l \<and> (\<forall>k b. e \<noteq> Rx k b)" by auto
  from run_from_view_quiet[OF ev r]
  obtain s' where rs: "run ?tr s = Some s'"
    and vs: "view l s' = ?v\<lparr>lv_usart := lv_usart ?v - {USART_INT_FLAG_IDLE},
             lv_length := of_nat ?cap, lv_buff := (lv_buff ?v)[?cap := 0], lv_flag := 1,
             lv_timer := (lv_timer ?v)\<lparr>tm_cnt := 0, tm_en := False\<rparr>\<rparr>"
    by blast
  have "lv_length (view l s') = of_nat ?cap" and "lv_flag (view l s') = 1"
    and "lv_buff (view l s') = (lv_buff ?v)[?cap := 0]"
    unfolding vs by simp_all
  note obs = this[unfolded view_simps]
  have u: "unat (of_nat ?cap :: u16) = ?cap" using cap by (rule w16_unat)
  have nz: "(of_nat ?cap :: u16) \<noteq> 0" using w16_zero[OF cap] pos by simp
  from obs u nz rs first show ?thesis by simp
qed

lemma host_buffer_full_hyps:
  "configured Host_link host_buffer_full"
  "ch_cnt (rx_dma Host_link host_buffer_full) = of_nat (capacity Host_link)"
  "DMA_FLAG_FTF \<in> ch_flags (rx_dma Host_link host_buffer_full)"
  "TIMER_INT_FLAG_UP \<notin> tm_flags (confirmation_timer Host_link host_buffer_full)"
  by (simp_all add: host_buffer_full_def configured_def rx_dma_def confirmation_timer_def
        init_defs periph_defs Let_def)

theorem full_buffer_not_empty_witness:
  "configured Host_link host_buffer_full \<and>
   ch_cnt (rx_dma Host_link host_buffer_full) = of_nat (capacity Host_link) \<and>
   DMA_FLAG_FTF \<in> ch_flags (rx_dma Host_link host_buffer_full) \<and>
   TIMER_INT_FLAG_UP \<notin> tm_flags (confirmation_timer Host_link host_buffer_full) \<and>
   recv_length Host_link (usart_irq Host_link (usart_idle_detect (link_usart Host_link) host_buffer_full)) = 0 \<and>
   (\<exists>s'. run (Idle_line Host_link # replicate (debounce_ticks Host_link host_buffer_full) (Tick Host_link))
             host_buffer_full = Some s' \<and>
      unat (recv_length Host_link s') = capacity Host_link \<and> recv_length Host_link s' \<noteq> 0 \<and>
      recv_complete_flag Host_link s' = 1 \<and>
      recv_buff Host_link s' = (recv_buff Host_link host_buffer_full)[capacity Host_link := 0])"
  using full_buffer_not_empty[OF host_buffer_full_hyps] host_buffer_full_hyps by blast

lemma rearm_post:
  "recv_complete_flag l (rx_dma_receive_reset l s) = 0"
  "recv_length l (rx_dma_receive_reset l s) = 0"
  "ch_en (rx_dma l (rx_dma_receive_reset l s))"
  "ch_cnt (rx_dma l (rx_dma_receive_reset l s)) = of_nat (capacity l)"
  "ch_offset (rx_dma l (rx_dma_receive_reset l s)) = 0"
  "ch_flags (rx_dma l (rx_dma_receive_reset l s)) = {}"
  "ch_number (rx_dma l (rx_dma_receive_reset l s)) = of_nat (capacity l)"
  "ch_memory0 (rx_dma l (rx_dma_receive_reset l s)) = ch_memory0 (rx_dma l s)"
  "ch_circular (rx_dma l (rx_dma_receive_reset l s)) = ch_circular (rx_dma l s)"
  "recv_buff l (rx_dma_receive_reset l s) = recv_buff l s"
  "confirmation_timer l (rx_dma_receive_reset l s) = confirmation_timer l s"
proof -
  have v: "view l (rx_dma_receive_reset l s) = lv_rearm (capacity l) (view l s)"
    by (rule view_rearm)
  have "lv_flag (view l (rx_dma_receive_reset l s)) = 0"
    "lv_length (view l (rx_dma_receive_reset l s)) = 0"
    "ch_en (lv_dma (view l (rx_dma_receive_reset l s)))"
    "ch_cnt (lv_dma (view l (rx_dma_receive_reset l s))) = of_nat (capacity l)"
    "ch_offset (lv_dma (view l (rx_dma_receive_reset l s))) = 0"
    "ch_flags (lv_dma (view l (rx_dma_receive_reset l s))) = {}"
    "ch_number (lv_dma (view l (rx_dma_receive_reset l s))) = of_nat (capacity l)"
    "ch_memory0 (lv_dma (view l (rx_dma_receive_reset l s))) = ch_memory0 (lv_dma (view l s))"
    "ch_circular (lv_dma (view l (rx_dma_receive_reset l s))) = ch_circular (lv_dma (view l s))"
    "lv_buff (view l (rx_dma_receive_reset l s)) = lv_buff (view l s)"
    "lv_timer (view l (rx_dma_receive_reset l s)) = lv_timer (view l s)"
    unfolding v by (simp_all add: lv_rearm_def)
  note obs = this[unfolded view_simps]
  show "recv_complete_flag l (rx_dma_receive_reset l s) = 0"
  "recv_length l (rx_dma_receive_reset l s) = 0"
  "ch_en (rx_dma l (rx_dma_receive_reset l s))"
  "ch_cnt (rx_dma l (rx_dma_receive_reset l s)) = of_nat (capacity l)"
  "ch_offset (rx_dma l (rx_dma_receive_reset l s)) = 0"
  "ch_flags (rx_dma l (rx_dma_receive_reset l s)) = {}"
  "ch_number (rx_dma l (rx_dma_receive_reset l s)) = of_nat (capacity l)"
  "ch_memory0 (rx_dma l (rx_dma_receive_reset l s)) = ch_memory0 (rx_dma l s)"
  "ch_circular (rx_dma l (rx_dma_receive_reset l s)) = ch_circular (rx_dma l s)"
  "recv_buff l (rx_dma_receive_reset l s) = recv_buff l s"
  "confirmation_timer l (rx_dma_receive_reset l s) = confirmation_timer l s"
    by (rule obs)+
qed



lemma strict_prefix_snoc_prefix: "strict_prefix p (xs @ [x]) \<Longrightarrow> prefix p xs"
  by (auto simp add: strict_prefix_def)

text \<open>
  C5.  From the idle link with the completion flag down: a first burst of k bytes, an
  idle-line event, a second burst of m bytes during which the timer's clock ticks fewer
  times than the debounce interval, a second idle-line event and then the whole debounce
  interval, with 0 < k + m <= C.  The run ends with the completion flag 1, the length
  k + m and the k + m bytes in the buffer; after every proper prefix of the run the flag
  is still 0, so there is one frame and not two.  The second idle-line event restarts the
  countdown: the whole interval is needed after it.
\<close>

theorem bursts_coalesce:
  assumes idle: "link_idle l s" and f0: "recv_complete_flag l s = 0"
    and bu1: "is_burst l b1" and bu2: "is_burst l b2"
    and pos: "0 < length (burst_bytes b1) + length (burst_bytes b2)"
    and le: "length (burst_bytes b1) + length (burst_bytes b2) \<le> capacity l"
    and t: "burst_ticks b2 < debounce_ticks l s"
  shows "\<exists>s'. run (b1 @ Idle_line l # b2 @ Idle_line l # replicate (debounce_ticks l s) (Tick l)) s = Some s' \<and>
           recv_complete_flag l s' = 1 \<and>
           unat (recv_length l s') = length (burst_bytes b1) + length (burst_bytes b2) \<and>
           take (length (burst_bytes b1) + length (burst_bytes b2)) (recv_buff l s') =
             burst_bytes b1 @ burst_bytes b2 \<and>
           (\<forall>p. strict_prefix p (b1 @ Idle_line l # b2 @ Idle_line l #
                     replicate (debounce_ticks l s) (Tick l)) \<longrightarrow>
                (\<exists>s1. run p s = Some s1 \<and> recv_complete_flag l s1 = 0))"
proof -
  let ?cap = "capacity l" and ?v = "view l s"
  let ?n = "length (burst_bytes b1) + length (burst_bytes b2)"
  let ?T = "unat (tm_car (lv_timer ?v))"
  let ?pre = "b1 @ Idle_line l # b2 @ Idle_line l # replicate ?T (Tick l)"
  let ?tr = "b1 @ Idle_line l # b2 @ Idle_line l # replicate (debounce_ticks l s) (Tick l)"
  from capacity_bound[of l] have cap: "?cap < 65536" and cpos: "0 < ?cap" by simp_all
  from idle have m: "moved ?cap 0 ?v" by (rule link_idle_moved)
  from idle have mem: "ch_memory0 (rx_dma l s) = Some (link_array l)"
    and up: "TIMER_INT_FLAG_UP \<notin> tm_flags (lv_timer ?v)"
    and en: "\<not> tm_en (lv_timer ?v)" and sp: "tm_single_pulse (lv_timer ?v)"
    by (simp_all add: link_idle_def configured_def view_simps)
  have T: "debounce_ticks l s = ?T + 1" by (simp add: debounce_ticks_def view_simps)
  from t have t': "burst_ticks b2 \<le> ?T" unfolding T by simp
  have tr: "?tr = ?pre @ [Tick l]"
    unfolding T by (simp add: replicate_append_same)
  note two = lv_two_bursts[OF m en up sp cap cpos bu1 bu2 le pos t', folded T]
  from two(1) obtain v' where r: "lv_run ?cap ?tr ?v = Some v'" and f: "lv_flag v' = 1"
    and n: "lv_length v' = of_nat ?n"
    and b: "lv_buff v' = (burst_bytes b1 @ burst_bytes b2 @ drop ?n (lv_buff ?v))[?n := 0]"
    by blast
  from two(2) f0 obtain vp where rp: "lv_run ?cap ?pre ?v = Some vp" and fp: "lv_flag vp = 0"
    unfolding T by (auto simp add: view_simps)
  have ev: "\<forall>e \<in> set ?tr. event_link e = l"
    using is_burst_links[OF bu1] is_burst_links[OF bu2] by auto
  from run_from_view[OF ev mem r]
  obtain s' where rs: "run ?tr s = Some s'" and vs: "view l s' = v'" by blast
  note f n b
  note obs = this[unfolded vs[symmetric] view_simps]
  from obs(2) le cap have len: "unat (recv_length l s') = ?n"
    using w16_unat[of ?n] by simp
  from obs(3) have tk: "take ?n (recv_buff l s') = burst_bytes b1 @ burst_bytes b2" by simp
  have early: "\<exists>s1. run p s = Some s1 \<and> recv_complete_flag l s1 = 0" if sp: "strict_prefix p ?tr" for p
  proof -
    from sp have "prefix p ?pre" unfolding tr by (rule strict_prefix_snoc_prefix)
    then obtain q where pq: "?pre = p @ q" by (auto simp add: prefix_def)
    have nr: "\<forall>k. Rearm k \<notin> set ?pre"
      using is_burst_no_rearm[OF bu1] is_burst_no_rearm[OF bu2] by auto
    then have nq: "\<forall>k. Rearm k \<notin> set q" unfolding pq by simp
    from rp have "lv_run ?cap (p @ q) ?v = Some vp" by (simp only: pq)
    from lv_flag_down_before[OF this fp nq]
    obtain v1 where r1: "lv_run ?cap p ?v = Some v1" and f1: "lv_flag v1 = 0" by blast
    from sp have "prefix p ?tr" by (simp only: strict_prefix_def)
    then have "set p \<subseteq> set ?tr" by (rule set_mono_prefix)
    with ev have evp: "\<forall>e \<in> set p. event_link e = l" by blast
    from run_from_view[OF evp mem r1]
    obtain s1 where "run p s = Some s1" and v1: "view l s1 = v1" by blast
    moreover from f1 have "recv_complete_flag l s1 = 0"
      unfolding v1[symmetric] view_simps .
    ultimately show ?thesis by blast
  qed
  from rs obs(1) len tk early show ?thesis by blast
qed

theorem bursts_coalesce_witness:
  "link_idle Host_link initial_state \<and> recv_complete_flag Host_link initial_state = 0 \<and>
   is_burst Host_link [Rx Host_link 72, Rx Host_link 105] \<and>
   is_burst Host_link [Tick Host_link, Tick Host_link, Rx Host_link 33] \<and>
   0 < length (burst_bytes [Rx Host_link 72, Rx Host_link 105]) +
       length (burst_bytes [Tick Host_link, Tick Host_link, Rx Host_link 33]) \<and>
   length (burst_bytes [Rx Host_link 72, Rx Host_link 105]) +
       length (burst_bytes [Tick Host_link, Tick Host_link, Rx Host_link 33]) \<le> capacity Host_link \<and>
   burst_ticks [Tick Host_link, Tick Host_link, Rx Host_link 33] < debounce_ticks Host_link initial_state \<and>
   (\<exists>s'. run ([Rx Host_link 72, Rx Host_link 105] @ Idle_line Host_link #
               [Tick Host_link, Tick Host_link, Rx Host_link 33] @ Idle_line Host_link #
               replicate (debounce_ticks Host_link initial_state) (Tick Host_link)) initial_state = Some s' \<and>
      recv_complete_flag Host_link s' = 1 \<and> unat (recv_length Host_link s') = 3 \<and>
      take 3 (recv_buff Host_link s') = [72, 105, 33]) \<and>
   (\<exists>s1. run ([Rx Host_link 72, Rx Host_link 105] @ [Idle_line Host_link]) initial_state = Some s1 \<and>
      recv_complete_flag Host_link s1 = 0)"
proof -
  let ?b1 = "[Rx Host_link 72, Rx Host_link 105]"
  let ?b2 = "[Tick Host_link, Tick Host_link, Rx Host_link 33]"
  let ?tr = "?b1 @ Idle_line Host_link # ?b2 @ Idle_line Host_link #
        replicate (debounce_ticks Host_link initial_state) (Tick Host_link)"
  have h1: "link_idle Host_link initial_state" by (rule initial_idle)
  have h2: "recv_complete_flag Host_link initial_state = 0" by (rule initial_flag)
  have h3: "is_burst Host_link ?b1" and h4: "is_burst Host_link ?b2" by simp_all
  have h5: "0 < length (burst_bytes ?b1) + length (burst_bytes ?b2)" by simp
  have h6: "length (burst_bytes ?b1) + length (burst_bytes ?b2) \<le> capacity Host_link"
    by (simp add: BSP_USART_RECEIVE_LENGTH_def)
  have h7: "burst_ticks ?b2 < debounce_ticks Host_link initial_state"
    by (simp add: initial_debounce)
  have n3: "length (burst_bytes ?b1) + length (burst_bytes ?b2) = 3"
    and bs: "burst_bytes ?b1 @ burst_bytes ?b2 = [72, 105, 33]" by simp_all
  have "prefix (?b1 @ [Idle_line Host_link]) ?tr" by (simp only: prefix_def append_assoc append_Cons append_Nil) blast
  moreover have "?b1 @ [Idle_line Host_link] \<noteq> ?tr" by simp
  ultimately have sp: "strict_prefix (?b1 @ [Idle_line Host_link]) ?tr"
    by (simp only: strict_prefix_def simp_thms)
  from bursts_coalesce[OF h1 h2 h3 h4 h5 h6 h7, unfolded n3 bs]
  obtain s' where a: "run ?tr initial_state = Some s'"
    and b: "recv_complete_flag Host_link s' = 1" "unat (recv_length Host_link s') = 3"
      "take 3 (recv_buff Host_link s') = [72, 105, 33]"
    and e: "\<forall>p. strict_prefix p ?tr \<longrightarrow>
                (\<exists>s1. run p initial_state = Some s1 \<and> recv_complete_flag Host_link s1 = 0)"
    by blast
  from e sp have c: "\<exists>s1. run (?b1 @ [Idle_line Host_link]) initial_state = Some s1 \<and>
      recv_complete_flag Host_link s1 = 0" by blast
  from a b have d: "\<exists>s'. run ?tr initial_state = Some s' \<and>
      recv_complete_flag Host_link s' = 1 \<and> unat (recv_length Host_link s') = 3 \<and>
      take 3 (recv_buff Host_link s') = [72, 105, 33]" by blast
  from h1 h2 h3 h4 h5 h6 h7 c d show ?thesis by (intro conjI)
qed

text \<open>The timer handler of a link, case by case.\<close>

lemma timer_irq_cases:
  assumes len: "length (recv_buff l s) = capacity l + 1"
    and le: "unat (recv_length l s) \<le> capacity l"
  shows "\<exists>s'. timer_irq l s = Some s' \<and>
     (if TIMER_INT_FLAG_UP \<in> tm_flags (confirmation_timer l s) \<and>
         (ucast (recv_length l s) :: u32) = of_nat (capacity l) - ch_cnt (rx_dma l s)
      then recv_complete_flag l s' = 1 \<and>
           recv_length l s' = (if recv_length l s = 0 then of_nat (capacity l) else recv_length l s) \<and>
           recv_buff l s' = (recv_buff l s)[unat (recv_length l s') := 0]
      else recv_complete_flag l s' = recv_complete_flag l s \<and>
           recv_length l s' = recv_length l s \<and> recv_buff l s' = recv_buff l s) \<and>
     unat (recv_length l s') \<le> capacity l \<and>
     rx_dma l s' = rx_dma l s \<and>
     confirmation_timer l s' = (confirmation_timer l s)
        \<lparr>tm_flags := tm_flags (confirmation_timer l s) - {TIMER_INT_FLAG_UP}\<rparr>"
proof -
  let ?cap = "capacity l" and ?v = "view l s"
  from capacity_bound[of l] have cap: "?cap < 65536" by simp
  then have u: "unat (of_nat ?cap :: u16) = ?cap" by (rule w16_unat)
  define n where "n = (if lv_length ?v = 0 then of_nat ?cap else lv_length ?v)"
  have nb: "unat n \<le> ?cap" using le u by (simp add: n_def view_simps)
  then have nl: "unat n < length (lv_buff ?v)" using len by (simp add: view_simps)
  have "\<exists>v'. lv_timer_irq ?cap ?v = Some v' \<and>
     (if TIMER_INT_FLAG_UP \<in> tm_flags (lv_timer ?v) \<and>
         (ucast (lv_length ?v) :: u32) = of_nat ?cap - ch_cnt (lv_dma ?v)
      then lv_flag v' = 1 \<and> lv_length v' = n \<and> lv_buff v' = (lv_buff ?v)[unat n := 0]
      else lv_flag v' = lv_flag ?v \<and> lv_length v' = lv_length ?v \<and> lv_buff v' = lv_buff ?v) \<and>
     unat (lv_length v') \<le> ?cap \<and> lv_dma v' = lv_dma ?v \<and>
     lv_timer v' = (lv_timer ?v)\<lparr>tm_flags := tm_flags (lv_timer ?v) - {TIMER_INT_FLAG_UP}\<rparr>"
  proof (cases "TIMER_INT_FLAG_UP \<in> tm_flags (lv_timer ?v)")
    case False
    then have "tm_flags (lv_timer ?v) - {TIMER_INT_FLAG_UP} = tm_flags (lv_timer ?v)" by simp
    with False le show ?thesis by (simp add: lv_timer_irq_def view_simps)
  next
    case True
    show ?thesis
    proof (cases "(ucast (lv_length ?v) :: u32) = of_nat ?cap - ch_cnt (lv_dma ?v)")
      case g: True
      from lv_timer_irq_final[OF True g n_def nl] True g nb show ?thesis by simp
    next
      case g: False
      from lv_timer_irq_skip[OF True g] True g le show ?thesis by (simp add: view_simps)
    qed
  qed
  then obtain v' where r: "lv_timer_irq ?cap ?v = Some v'"
    and p: "(if TIMER_INT_FLAG_UP \<in> tm_flags (lv_timer ?v) \<and>
         (ucast (lv_length ?v) :: u32) = of_nat ?cap - ch_cnt (lv_dma ?v)
      then lv_flag v' = 1 \<and> lv_length v' = n \<and> lv_buff v' = (lv_buff ?v)[unat n := 0]
      else lv_flag v' = lv_flag ?v \<and> lv_length v' = lv_length ?v \<and> lv_buff v' = lv_buff ?v) \<and>
     unat (lv_length v') \<le> ?cap \<and> lv_dma v' = lv_dma ?v \<and>
     lv_timer v' = (lv_timer ?v)\<lparr>tm_flags := tm_flags (lv_timer ?v) - {TIMER_INT_FLAG_UP}\<rparr>"
    by blast
  from r view_timer_irq[of l s] obtain s' where rs: "timer_irq l s = Some s'"
    and vs: "view l s' = v'"
    by (cases "timer_irq l s") simp_all
  from p have "(if TIMER_INT_FLAG_UP \<in> tm_flags (confirmation_timer l s) \<and>
         (ucast (recv_length l s) :: u32) = of_nat ?cap - ch_cnt (rx_dma l s)
      then recv_complete_flag l s' = 1 \<and>
           recv_length l s' = (if recv_length l s = 0 then of_nat ?cap else recv_length l s) \<and>
           recv_buff l s' = (recv_buff l s)[unat (recv_length l s') := 0]
      else recv_complete_flag l s' = recv_complete_flag l s \<and>
           recv_length l s' = recv_length l s \<and> recv_buff l s' = recv_buff l s) \<and>
     unat (recv_length l s') \<le> ?cap \<and> rx_dma l s' = rx_dma l s \<and>
     confirmation_timer l s' = (confirmation_timer l s)
        \<lparr>tm_flags := tm_flags (confirmation_timer l s) - {TIMER_INT_FLAG_UP}\<rparr>"
    unfolding vs[symmetric] n_def view_simps by (auto split: if_splits)
  with rs show ?thesis by blast
qed

lemmas example_defs = host_buffer_full_def host_debouncing_def host_update_pending_def
  host_three_bytes_def

lemma host_update_pending_facts:
  "length (recv_buff Host_link host_update_pending) = capacity Host_link + 1"
  "unat (recv_length Host_link host_update_pending) \<le> capacity Host_link"
  "TIMER_INT_FLAG_UP \<in> tm_flags (confirmation_timer Host_link host_update_pending)"
  "(ucast (recv_length Host_link host_update_pending) :: u32) =
     of_nat (capacity Host_link) - ch_cnt (rx_dma Host_link host_update_pending)"
  "recv_length Host_link host_update_pending = 0"
  "recv_complete_flag Host_link host_update_pending = 0"
  by (simp_all add: example_defs rx_dma_def confirmation_timer_def init_defs periph_defs Let_def)

text \<open>
  C8.  The timer handler of a link whose array has C + 1 bytes and whose received length
  is at most C (the invariant of C7) returns normally: its one write is inside the array.
  When it finalises, the buffer afterwards is the buffer before with the single byte at
  index ReceivedLength set to NUL; when it does not, the buffer is unchanged.  The index
  is at most C, and the bytes below it, the received bytes of the frame, are as before.
\<close>

theorem terminator_in_bounds:
  assumes "length (recv_buff l s) = capacity l + 1" and "unat (recv_length l s) \<le> capacity l"
  shows "\<exists>s'. timer_irq l s = Some s' \<and>
     unat (recv_length l s') \<le> capacity l \<and>
     unat (recv_length l s') < length (recv_buff l s) \<and>
     length (recv_buff l s') = capacity l + 1 \<and>
     (if TIMER_INT_FLAG_UP \<in> tm_flags (confirmation_timer l s) \<and>
         (ucast (recv_length l s) :: u32) = of_nat (capacity l) - ch_cnt (rx_dma l s)
      then recv_buff l s' = (recv_buff l s)[unat (recv_length l s') := 0] \<and>
           recv_buff l s' ! unat (recv_length l s') = 0
      else recv_buff l s' = recv_buff l s) \<and>
     take (unat (recv_length l s')) (recv_buff l s') = take (unat (recv_length l s')) (recv_buff l s)"
proof -
  from timer_irq_cases[OF assms] obtain s' where rs: "timer_irq l s = Some s'"
    and c: "if TIMER_INT_FLAG_UP \<in> tm_flags (confirmation_timer l s) \<and>
         (ucast (recv_length l s) :: u32) = of_nat (capacity l) - ch_cnt (rx_dma l s)
      then recv_complete_flag l s' = 1 \<and>
           recv_length l s' = (if recv_length l s = 0 then of_nat (capacity l) else recv_length l s) \<and>
           recv_buff l s' = (recv_buff l s)[unat (recv_length l s') := 0]
      else recv_complete_flag l s' = recv_complete_flag l s \<and>
           recv_length l s' = recv_length l s \<and> recv_buff l s' = recv_buff l s"
    and b: "unat (recv_length l s') \<le> capacity l"
    by blast
  from b assms(1) have lt: "unat (recv_length l s') < length (recv_buff l s)" by simp
  from c lt assms(1) have "length (recv_buff l s') = capacity l + 1"
    and "if TIMER_INT_FLAG_UP \<in> tm_flags (confirmation_timer l s) \<and>
         (ucast (recv_length l s) :: u32) = of_nat (capacity l) - ch_cnt (rx_dma l s)
      then recv_buff l s' = (recv_buff l s)[unat (recv_length l s') := 0] \<and>
           recv_buff l s' ! unat (recv_length l s') = 0
      else recv_buff l s' = recv_buff l s"
    and "take (unat (recv_length l s')) (recv_buff l s') = take (unat (recv_length l s')) (recv_buff l s)"
    by (auto split: if_splits)
  with rs b lt show ?thesis by blast
qed

theorem terminator_in_bounds_witness:
  "length (recv_buff Host_link host_update_pending) = capacity Host_link + 1 \<and>
   unat (recv_length Host_link host_update_pending) \<le> capacity Host_link \<and>
   (\<exists>s'. timer_irq Host_link host_update_pending = Some s' \<and>
     unat (recv_length Host_link s') \<le> capacity Host_link \<and>
     unat (recv_length Host_link s') < length (recv_buff Host_link host_update_pending) \<and>
     length (recv_buff Host_link s') = capacity Host_link + 1 \<and>
     recv_buff Host_link s' =
       (recv_buff Host_link host_update_pending)[unat (recv_length Host_link s') := 0] \<and>
     recv_buff Host_link s' ! unat (recv_length Host_link s') = 0 \<and>
     take (unat (recv_length Host_link s')) (recv_buff Host_link s') =
       take (unat (recv_length Host_link s')) (recv_buff Host_link host_update_pending))"
proof -
  note f = host_update_pending_facts
  from terminator_in_bounds[OF f(1,2)] f(3,4)
  have "\<exists>s'. timer_irq Host_link host_update_pending = Some s' \<and>
     unat (recv_length Host_link s') \<le> capacity Host_link \<and>
     unat (recv_length Host_link s') < length (recv_buff Host_link host_update_pending) \<and>
     length (recv_buff Host_link s') = capacity Host_link + 1 \<and>
     recv_buff Host_link s' =
       (recv_buff Host_link host_update_pending)[unat (recv_length Host_link s') := 0] \<and>
     recv_buff Host_link s' ! unat (recv_length Host_link s') = 0 \<and>
     take (unat (recv_length Host_link s')) (recv_buff Host_link s') =
       take (unat (recv_length Host_link s')) (recv_buff Host_link host_update_pending)"
    by (simp only: simp_thms if_True conj_assoc)
  with f(1,2) show ?thesis by (intro conjI)
qed




text \<open>
  Bytes that arrive after the idle-line event, with no idle-line event after them before
  the timer elapses: the handler finds the recorded length out of date and leaves the
  frame open.
\<close>

lemma late_bytes_no_frame:
  assumes idle: "link_idle l s" and ne1: "bs1 \<noteq> []" and ne2: "bs2 \<noteq> []"
    and lt: "length bs1 + length bs2 < capacity l"
  shows "\<exists>s'. run (map (Rx l) bs1 @ Idle_line l # map (Rx l) bs2 @
                   replicate (debounce_ticks l s) (Tick l)) s = Some s' \<and>
           recv_complete_flag l s' = recv_complete_flag l s \<and>
           \<not> tm_en (confirmation_timer l s')"
    and "\<exists>s1. run (map (Rx l) bs1 @ [Idle_line l]) s = Some s1 \<and>
           tm_en (confirmation_timer l s1) \<and> tm_cnt (confirmation_timer l s1) = 0"
proof -
  let ?cap = "capacity l" and ?v = "view l s"
  let ?k = "length bs1" and ?j = "length bs2"
  let ?b1 = "map (Rx l) bs1" and ?b2 = "map (Rx l) bs2"
  let ?T = "unat (tm_car (lv_timer ?v))"
  from capacity_bound[of l] have cap: "?cap < 65536" by simp
  from idle have m: "moved ?cap 0 ?v" by (rule link_idle_moved)
  from idle have mem: "ch_memory0 (rx_dma l s) = Some (link_array l)"
    and up: "TIMER_INT_FLAG_UP \<notin> tm_flags (lv_timer ?v)"
    and en: "\<not> tm_en (lv_timer ?v)" and sp: "tm_single_pulse (lv_timer ?v)"
    by (simp_all add: link_idle_def configured_def view_simps)
  have T: "debounce_ticks l s = ?T + 1" by (simp add: debounce_ticks_def view_simps)
  from ne1 ne2 lt have k: "0 < ?k" "?k < ?cap" "?k \<le> ?cap" and j: "0 < ?j" by simp_all
  have le1: "0 + length (burst_bytes ?b1) \<le> ?cap" using k by (simp add: burst_bytes_map_Rx)
  from en have tq1: "tm_en (lv_timer ?v) \<longrightarrow>
      unat (tm_cnt (lv_timer ?v)) + burst_ticks ?b1 \<le> unat (tm_car (lv_timer ?v))" by simp
  from lv_burst[OF m is_burst_map_Rx le1 cap up tq1]
  obtain v1 where r1: "lv_run ?cap ?b1 ?v = Some v1" and m1: "moved ?cap ?k v1"
    and f1: "lv_flag v1 = lv_flag ?v" and t1: "lv_timer v1 = lv_timer ?v"
    using en by (auto simp add: burst_bytes_map_Rx)
  from m1 k(1,3) have c1: "counted ?cap ?k v1" by (rule moved_counted)
  define v2 where "v2 = lv_idle ?cap v1"
  have v2: "v2 = v1\<lparr>lv_usart := lv_usart v1 - {USART_INT_FLAG_IDLE},
       lv_length := of_nat ?k, lv_timer := (lv_timer v1)\<lparr>tm_cnt := 0, tm_en := True\<rparr>\<rparr>"
    unfolding v2_def using lv_idle_counted[OF c1 cap] k(2) by simp
  have i2: "lv_step ?cap (Idle_line l) v1 = Some v2" by (simp add: v2_def)
  have r2: "lv_run ?cap (?b1 @ [Idle_line l]) ?v = Some v2"
    by (simp only: lv_run_snoc r1 option.case i2)
  have m2: "moved ?cap ?k v2" using m1 by (simp add: v2 moved_def)
  have up2: "TIMER_INT_FLAG_UP \<notin> tm_flags (lv_timer v2)" using up by (simp add: v2 t1)
  have le2: "?k + length (burst_bytes ?b2) \<le> ?cap" using lt by (simp add: burst_bytes_map_Rx)
  have tq2: "tm_en (lv_timer v2) \<longrightarrow>
      unat (tm_cnt (lv_timer v2)) + burst_ticks ?b2 \<le> unat (tm_car (lv_timer v2))"
    by (simp add: v2 burst_ticks_map_Rx)
  from lv_burst[OF m2 is_burst_map_Rx le2 cap up2 tq2]
  obtain v3 where r3: "lv_run ?cap ?b2 v2 = Some v3" and m3: "moved ?cap (?k + ?j) v3"
    and n3: "lv_length v3 = of_nat ?k" and f3: "lv_flag v3 = lv_flag ?v"
    and t3: "lv_timer v3 = (lv_timer ?v)\<lparr>tm_cnt := 0, tm_en := True\<rparr>"
    by (auto simp add: burst_bytes_map_Rx burst_ticks_map_Rx v2 f1 t1)
  let ?v4 = "v3\<lparr>lv_timer := (lv_timer v3)\<lparr>tm_cnt := 0,
        tm_flags := insert TIMER_INT_FLAG_UP (tm_flags (lv_timer v3)), tm_en := False\<rparr>\<rparr>"
  have e: "lv_run ?cap (replicate (unat (tm_car (lv_timer v3)) + 1) (Tick l)) v3 = lv_timer_irq ?cap ?v4"
    using up sp by (intro lv_debounce_elapse) (simp_all add: t3)
  have car3: "tm_car (lv_timer v3) = tm_car (lv_timer ?v)" by (simp add: t3)
  from m3 lt have cnt3: "ch_cnt (lv_dma v3) = of_nat (?cap - (?k + ?j))" by (simp add: moved_def)
  define kk :: u32 where "kk = of_nat ?k"
  define nn :: u32 where "nn = of_nat (?k + ?j)"
  have "(ucast (of_nat ?k :: u16) :: u32) = of_nat ?k" using k(2) cap by (intro w_ucast_up) simp
  then have a: "(ucast (lv_length v3) :: u32) = kk" by (simp only: n3 kk_def)
  have "(of_nat ?cap :: u32) - of_nat (?cap - (?k + ?j)) = of_nat (?k + ?j)"
    using lt by simp
  then have b: "(of_nat ?cap :: u32) - ch_cnt (lv_dma v3) = nn" by (simp only: cnt3 nn_def)
  have ne: "kk \<noteq> nn"
    unfolding kk_def nn_def using w32_inj[of ?k "?k + ?j"] k lt cap j by simp
  have s4: "lv_length ?v4 = lv_length v3" "lv_dma ?v4 = lv_dma v3" by simp_all
  have g: "(ucast (lv_length ?v4) :: u32) \<noteq> of_nat ?cap - ch_cnt (lv_dma ?v4)"
    unfolding s4 a b by (rule ne)
  have "TIMER_INT_FLAG_UP \<in> tm_flags (lv_timer ?v4)" by simp
  from lv_timer_irq_skip[OF this g]
  have fin: "lv_timer_irq ?cap ?v4 =
     Some (?v4\<lparr>lv_timer := (lv_timer ?v4)\<lparr>tm_flags := tm_flags (lv_timer ?v4) - {TIMER_INT_FLAG_UP}\<rparr>\<rparr>)" .
  let ?tr = "?b1 @ Idle_line l # ?b2 @ replicate (debounce_ticks l s) (Tick l)"
  let ?v5 = "?v4\<lparr>lv_timer := (lv_timer ?v4)\<lparr>tm_flags := tm_flags (lv_timer ?v4) - {TIMER_INT_FLAG_UP}\<rparr>\<rparr>"
  have "lv_run ?cap ?tr ?v = lv_run ?cap (replicate (?T + 1) (Tick l)) v3"
    by (simp only: lv_run_append r1 option.case lv_run.simps i2 r3 T)
  also have "\<dots> = Some ?v5" using e fin by (simp only: car3)
  finally have r: "lv_run ?cap ?tr ?v = Some ?v5" .
  have ev: "\<forall>e \<in> set ?tr. event_link e = l" by auto
  from run_from_view[OF ev mem r]
  obtain s' where rs: "run ?tr s = Some s'" and vs: "view l s' = ?v5" by blast
  have "lv_flag (view l s') = lv_flag ?v" "\<not> tm_en (lv_timer (view l s'))"
    unfolding vs by (simp_all add: f3)
  note obs = this[unfolded view_simps]
  from rs obs show "\<exists>s'. run ?tr s = Some s' \<and>
           recv_complete_flag l s' = recv_complete_flag l s \<and>
           \<not> tm_en (confirmation_timer l s')" by blast
  have ev2: "\<forall>e \<in> set (?b1 @ [Idle_line l]). event_link e = l" by auto
  from run_from_view[OF ev2 mem r2]
  obtain s1 where rs1: "run (?b1 @ [Idle_line l]) s = Some s1" and vs1: "view l s1 = v2" by blast
  have "tm_en (lv_timer (view l s1))" "tm_cnt (lv_timer (view l s1)) = 0"
    unfolding vs1 by (simp_all add: v2)
  note obs1 = this[unfolded view_simps]
  from rs1 obs1 show "\<exists>s1. run (?b1 @ [Idle_line l]) s = Some s1 \<and>
           tm_en (confirmation_timer l s1) \<and> tm_cnt (confirmation_timer l s1) = 0" by blast
qed

text \<open>
  C4 as stated fails.  On the host link one byte arrives, the idle-line event arms the
  timer, a second byte arrives and no idle-line event follows it before the timer has
  run its 1000 ticks: the timer elapses and stops, and the completion flag is still 0.
\<close>

theorem finalisation_on_every_elapse_counterexample:
  "debounce_ticks Host_link initial_state = 1000 \<and>
   map_option (tm_en \<circ> confirmation_timer Host_link)
     (run [Rx Host_link 72, Idle_line Host_link] initial_state) = Some True \<and>
   map_option (recv_complete_flag Host_link)
     (run ([Rx Host_link 72, Idle_line Host_link, Rx Host_link 73] @
           replicate 1000 (Tick Host_link)) initial_state) = Some 0 \<and>
   map_option (tm_en \<circ> confirmation_timer Host_link)
     (run ([Rx Host_link 72, Idle_line Host_link, Rx Host_link 73] @
           replicate 1000 (Tick Host_link)) initial_state) = Some False"
proof -
  have T: "debounce_ticks Host_link initial_state = 1000" by (rule initial_debounce)
  have e1: "map (Rx Host_link) [72] @ Idle_line Host_link # map (Rx Host_link) [73] @
              replicate (debounce_ticks Host_link initial_state) (Tick Host_link) =
            [Rx Host_link 72, Idle_line Host_link, Rx Host_link 73] @
              replicate 1000 (Tick Host_link)"
    unfolding T by simp
  have e2: "map (Rx Host_link) [72] @ [Idle_line Host_link] =
            [Rx Host_link 72, Idle_line Host_link]" by simp
  have lt: "length [72 :: u8] + length [73 :: u8] < capacity Host_link"
    by (simp add: BSP_USART_RECEIVE_LENGTH_def)
  note l = late_bytes_no_frame[OF initial_idle _ _ lt, unfolded e1 e2 initial_flag]
  from l(1) obtain s' where
    "run ([Rx Host_link 72, Idle_line Host_link, Rx Host_link 73] @
           replicate 1000 (Tick Host_link)) initial_state = Some s'"
    and "recv_complete_flag Host_link s' = 0" and "\<not> tm_en (confirmation_timer Host_link s')"
    by blast
  then have a: "map_option (recv_complete_flag Host_link)
     (run ([Rx Host_link 72, Idle_line Host_link, Rx Host_link 73] @
           replicate 1000 (Tick Host_link)) initial_state) = Some 0"
    and b: "map_option (tm_en \<circ> confirmation_timer Host_link)
     (run ([Rx Host_link 72, Idle_line Host_link, Rx Host_link 73] @
           replicate 1000 (Tick Host_link)) initial_state) = Some False"
    by (simp_all only: option.map comp_apply)
  from l(2) obtain s1 where "run [Rx Host_link 72, Idle_line Host_link] initial_state = Some s1"
    and "tm_en (confirmation_timer Host_link s1)"
    by blast
  then have c: "map_option (tm_en \<circ> confirmation_timer Host_link)
     (run [Rx Host_link 72, Idle_line Host_link] initial_state) = Some True"
    by (simp only: option.map comp_apply)
  from T a b c show ?thesis by (intro conjI)
qed

text \<open>
  C4, as the code has it.  On the tick on which the running confirmation timer elapses
  the timer stops, and the link finalises exactly when the length recorded by the idle
  handler still equals C minus the remaining count of the transport: then a recorded 0
  becomes C, the terminator is stored at the index of the length and the completion flag
  is set.  Otherwise, bytes having been moved since the idle-line event, the length, the
  buffer and the flag stay as they are.
\<close>

theorem finalisation_guarded:
  assumes en: "tm_en (confirmation_timer l s)"
    and eq: "tm_cnt (confirmation_timer l s) = tm_car (confirmation_timer l s)"
    and sp: "tm_single_pulse (confirmation_timer l s)"
    and len: "length (recv_buff l s) = capacity l + 1"
    and le: "unat (recv_length l s) \<le> capacity l"
  shows "\<exists>s'. step (Tick l) s = Some s' \<and>
     \<not> tm_en (confirmation_timer l s') \<and>
     (if (ucast (recv_length l s) :: u32) = of_nat (capacity l) - ch_cnt (rx_dma l s)
      then recv_complete_flag l s' = 1 \<and>
           recv_length l s' = (if recv_length l s = 0 then of_nat (capacity l) else recv_length l s) \<and>
           recv_buff l s' = (recv_buff l s)[unat (recv_length l s') := 0]
      else recv_complete_flag l s' = recv_complete_flag l s \<and>
           recv_length l s' = recv_length l s \<and> recv_buff l s' = recv_buff l s)"
proof -
  let ?s1 = "timer_clock (link_timer l) s"
  have v1: "view l ?s1 = (view l s)\<lparr>lv_timer := (lv_timer (view l s))\<lparr>tm_cnt := 0,
        tm_flags := insert TIMER_INT_FLAG_UP (tm_flags (lv_timer (view l s))), tm_en := False\<rparr>\<rparr>"
    unfolding view_clock using en eq sp by (simp add: lv_clock_def Let_def view_simps)
  have "lv_buff (view l ?s1) = lv_buff (view l s)" "lv_length (view l ?s1) = lv_length (view l s)"
    "lv_flag (view l ?s1) = lv_flag (view l s)" "lv_dma (view l ?s1) = lv_dma (view l s)"
    "TIMER_INT_FLAG_UP \<in> tm_flags (lv_timer (view l ?s1))" "\<not> tm_en (lv_timer (view l ?s1))"
    unfolding v1 by simp_all
  note o1 = this[unfolded view_simps]
  have up: "timer_interrupt_flag_get (link_timer l) TIMER_INT_FLAG_UP ?s1"
    using o1(5) by (simp add: timer_interrupt_flag_get_def confirmation_timer_def)
  have st: "step (Tick l) s = timer_irq l ?s1" using up by (simp add: Let_def)
  from len le have len1: "length (recv_buff l ?s1) = capacity l + 1"
    and le1: "unat (recv_length l ?s1) \<le> capacity l"
    by (simp_all only: o1)
  from timer_irq_cases[OF len1 le1] obtain s' where rs: "timer_irq l ?s1 = Some s'"
    and c: "if TIMER_INT_FLAG_UP \<in> tm_flags (confirmation_timer l ?s1) \<and>
         (ucast (recv_length l ?s1) :: u32) = of_nat (capacity l) - ch_cnt (rx_dma l ?s1)
      then recv_complete_flag l s' = 1 \<and>
           recv_length l s' = (if recv_length l ?s1 = 0 then of_nat (capacity l) else recv_length l ?s1) \<and>
           recv_buff l s' = (recv_buff l ?s1)[unat (recv_length l s') := 0]
      else recv_complete_flag l s' = recv_complete_flag l ?s1 \<and>
           recv_length l s' = recv_length l ?s1 \<and> recv_buff l s' = recv_buff l ?s1"
    and t: "confirmation_timer l s' = (confirmation_timer l ?s1)
        \<lparr>tm_flags := tm_flags (confirmation_timer l ?s1) - {TIMER_INT_FLAG_UP}\<rparr>"
    by blast
  from t o1(6) have "\<not> tm_en (confirmation_timer l s')" by simp
  moreover from c have "if (ucast (recv_length l s) :: u32) = of_nat (capacity l) - ch_cnt (rx_dma l s)
      then recv_complete_flag l s' = 1 \<and>
           recv_length l s' = (if recv_length l s = 0 then of_nat (capacity l) else recv_length l s) \<and>
           recv_buff l s' = (recv_buff l s)[unat (recv_length l s') := 0]
      else recv_complete_flag l s' = recv_complete_flag l s \<and>
           recv_length l s' = recv_length l s \<and> recv_buff l s' = recv_buff l s"
    unfolding o1(1,2,3,4) using o1(5) by (simp only: simp_thms)
  ultimately show ?thesis using rs st by simp
qed

lemma host_debouncing_facts:
  "tm_en (confirmation_timer Host_link host_debouncing)"
  "tm_cnt (confirmation_timer Host_link host_debouncing) = tm_car (confirmation_timer Host_link host_debouncing)"
  "tm_single_pulse (confirmation_timer Host_link host_debouncing)"
  "length (recv_buff Host_link host_debouncing) = capacity Host_link + 1"
  "unat (recv_length Host_link host_debouncing) \<le> capacity Host_link"
  "(ucast (recv_length Host_link host_debouncing) :: u32) =
     of_nat (capacity Host_link) - ch_cnt (rx_dma Host_link host_debouncing)"
  "recv_length Host_link host_debouncing = 0"
  by (simp_all add: example_defs rx_dma_def confirmation_timer_def init_defs periph_defs Let_def)

theorem finalisation_guarded_witness:
  "tm_en (confirmation_timer Host_link host_debouncing) \<and>
   tm_cnt (confirmation_timer Host_link host_debouncing) = tm_car (confirmation_timer Host_link host_debouncing) \<and>
   tm_single_pulse (confirmation_timer Host_link host_debouncing) \<and>
   length (recv_buff Host_link host_debouncing) = capacity Host_link + 1 \<and>
   unat (recv_length Host_link host_debouncing) \<le> capacity Host_link \<and>
   (\<exists>s'. step (Tick Host_link) host_debouncing = Some s' \<and>
      \<not> tm_en (confirmation_timer Host_link s') \<and>
      recv_complete_flag Host_link s' = 1 \<and>
      recv_length Host_link s' = of_nat (capacity Host_link) \<and>
      recv_buff Host_link s' = (recv_buff Host_link host_debouncing)[unat (recv_length Host_link s') := 0])"
proof -
  note f = host_debouncing_facts
  from finalisation_guarded[OF f(1,2,3,4,5)] f(6,7)
  have "\<exists>s'. step (Tick Host_link) host_debouncing = Some s' \<and>
      \<not> tm_en (confirmation_timer Host_link s') \<and>
      recv_complete_flag Host_link s' = 1 \<and>
      recv_length Host_link s' = of_nat (capacity Host_link) \<and>
      recv_buff Host_link s' = (recv_buff Host_link host_debouncing)[unat (recv_length Host_link s') := 0]"
    by (simp only: simp_thms if_True conj_assoc)
  with f(1,2,3,4,5) show ?thesis by (intro conjI)
qed

lemma host_three_bytes_facts:
  "recv_length Host_link host_three_bytes = 0"
  "ch_cnt (rx_dma Host_link host_three_bytes) = 1021"
  "recv_complete_flag Host_link host_three_bytes = 0"
  by (simp_all add: example_defs rx_dma_def init_defs periph_defs Let_def)

lemma host_three_bytes_idle:
  "recv_length Host_link (BSP_USART_IRQHandler (usart_idle_detect USART0 host_three_bytes)) = 3"
  "recv_complete_flag Host_link (BSP_USART_IRQHandler (usart_idle_detect USART0 host_three_bytes)) = 0"
proof -
  have v: "view Host_link (BSP_USART_IRQHandler (usart_idle_detect USART0 host_three_bytes)) =
        lv_idle (capacity Host_link) (view Host_link host_three_bytes)"
    using view_idle[of Host_link host_three_bytes] by simp
  have "lv_length (lv_idle (capacity Host_link) (view Host_link host_three_bytes)) = 3"
    "lv_flag (lv_idle (capacity Host_link) (view Host_link host_three_bytes)) = 0"
    using host_three_bytes_facts
    by (simp_all add: lv_idle_def Let_def view_simps BSP_USART_RECEIVE_LENGTH_def)
  note this[folded v, unfolded view_simps]
  then show "recv_length Host_link (BSP_USART_IRQHandler (usart_idle_detect USART0 host_three_bytes)) = 3"
    "recv_complete_flag Host_link (BSP_USART_IRQHandler (usart_idle_detect USART0 host_three_bytes)) = 0"
    by simp_all
qed

lemma replicate_update_same: "(replicate n x)[i := x] = replicate n x"
  by (cases "i < n") (auto simp add: list_eq_iff_nth_eq nth_list_update)

lemma host_three_bytes_reached:
  "run [Rx Host_link 0, Rx Host_link 0, Rx Host_link 0] initial_state = Some host_three_bytes"
  by (simp add: host_three_bytes_def init_defs periph_defs dma_transfer_def recv_array_store_def
        array_store_def Let_def replicate_update_same BSP_USART_RECEIVE_LENGTH_def
        USART_TERMINAL_RECEIVE_LENGTH_def UART4_RECEIVE_LENGTH_def numeral_3_eq_3)

text \<open>
  C10 as stated fails.  On the host link, from the initialised state, three bytes are
  moved and the received length is still 0; the idle-line event alone, which is neither
  the finalisation nor the re-arm, then changes it to 3, and the completion flag is
  still 0.
\<close>

theorem length_written_by_idle_counterexample:
  "map_option (recv_length Host_link)
     (run [Rx Host_link 0, Rx Host_link 0, Rx Host_link 0] initial_state) = Some 0 \<and>
   map_option (recv_length Host_link)
     (run ([Rx Host_link 0, Rx Host_link 0, Rx Host_link 0] @ [Idle_line Host_link]) initial_state) = Some 3 \<and>
   map_option (recv_complete_flag Host_link)
     (run ([Rx Host_link 0, Rx Host_link 0, Rx Host_link 0] @ [Idle_line Host_link]) initial_state) = Some 0"
proof -
  have r: "run ([Rx Host_link 0, Rx Host_link 0, Rx Host_link 0] @ [Idle_line Host_link]) initial_state =
        Some (BSP_USART_IRQHandler (usart_idle_detect USART0 host_three_bytes))"
    unfolding run_append host_three_bytes_reached by simp
  show ?thesis
    by (simp only: r host_three_bytes_reached option.map host_three_bytes_facts
          host_three_bytes_idle simp_thms)
qed

lemma rx_length_unchanged:
  "dma_transfer p ch b s = Some s' \<Longrightarrow> recv_length l s' = recv_length l s"
  by (cases l)
     (auto simp add: dma_transfer_def recv_array_store_def array_store_def Let_def
           split: if_splits option.splits recv_array.splits)

text \<open>
  C10, as the code has it.  The received length of a link is written by the idle handler
  of the link, which stores C minus the remaining count of the transport; by the timer
  handler of the link, which leaves it or turns 0 into C; and by the re-arm function of
  the link, which zeroes it.  A byte moved by the transport and every event of another
  link leave it as it is.
\<close>

theorem received_length_writers:
  assumes "step e s = Some s'"
  shows "case e of
           Rx k b \<Rightarrow> recv_length l s' = recv_length l s
         | Idle_line k \<Rightarrow>
             recv_length l s' =
               (if k = l then ucast ((of_nat (capacity l) :: u32) - ch_cnt (rx_dma l s))
                else recv_length l s)
         | Tick k \<Rightarrow>
             recv_length l s' = recv_length l s \<or>
             (k = l \<and> recv_length l s = 0 \<and> recv_length l s' = of_nat (capacity l))
         | Rearm k \<Rightarrow> recv_length l s' = (if k = l then 0 else recv_length l s)"
proof (cases e)
  case (Rx k b)
  with assms show ?thesis by (simp add: rx_length_unchanged)
next
  case (Idle_line k)
  show ?thesis
  proof (cases "k = l")
    case True
    have "lv_length (lv_idle (capacity l) (view l s)) =
          ucast ((of_nat (capacity l) :: u32) - ch_cnt (lv_dma (view l s)))"
      by (simp add: lv_idle_def Let_def)
    note this[folded view_idle, unfolded view_simps]
    with assms Idle_line True show ?thesis by auto
  next
    case False
    from step_other_idle[OF False, of s] have "lv_length (view l s') = lv_length (view l s)"
      using assms Idle_line by auto
    with Idle_line False show ?thesis by (simp add: view_simps)
  qed
next
  case (Tick k)
  show ?thesis
  proof (cases "k = l")
    case True
    have a: "event_link e = l" using Tick True by simp
    have b: "\<forall>j b. e \<noteq> Rx j b" using Tick by simp
    from view_step_quiet[OF a b, of s] assms
    have st: "lv_step (capacity l) (Tick l) (view l s) = Some (view l s')"
      using Tick True by simp
    have "lv_length v' = lv_length v \<or> (lv_length v = 0 \<and> lv_length v' = of_nat cap)"
      if "lv_step cap (Tick l) v = Some v'" for cap v v'
      using that
      by (auto simp add: lv_clock_def lv_timer_irq_def array_store_def Let_def split: if_splits)
    from this[OF st] Tick True show ?thesis by (simp add: view_simps)
  next
    case False
    have a: "event_link e \<noteq> l" using Tick False by simp
    have b: "(\<forall>j b. e \<noteq> Rx j b) \<or>
      ch_memory0 (rx_dma (event_link e) s) = Some (link_array (event_link e))"
      using Tick by simp
    from step_other[OF a b assms] have "lv_length (view l s') = lv_length (view l s)" by simp
    with Tick show ?thesis by (simp add: view_simps)
  qed
next
  case (Rearm k)
  show ?thesis
  proof (cases "k = l")
    case True
    with assms Rearm show ?thesis by (auto simp add: rearm_post)
  next
    case False
    from step_other_rearm[OF False, of s] have "lv_length (view l s') = lv_length (view l s)"
      using assms Rearm by auto
    with Rearm False show ?thesis by (simp add: view_simps)
  qed
qed

theorem received_length_writers_witness:
  "step (Idle_line Host_link) host_three_bytes =
     Some (BSP_USART_IRQHandler (usart_idle_detect USART0 host_three_bytes)) \<and>
   recv_length Host_link (BSP_USART_IRQHandler (usart_idle_detect USART0 host_three_bytes)) =
     ucast ((of_nat (capacity Host_link) :: u32) - ch_cnt (rx_dma Host_link host_three_bytes))"
proof -
  have h: "step (Idle_line Host_link) host_three_bytes =
     Some (BSP_USART_IRQHandler (usart_idle_detect USART0 host_three_bytes))" by simp
  from received_length_writers[OF h, of Host_link] h show ?thesis
    by (simp only: event.case if_True simp_thms)
qed




















end
